theory Spec2Isabelle
  imports Complex_Main "HOL-Library.Log_Nat"
begin

unbundle bit_operations_syntax

section \<open>Data model\<close>

text \<open>
  The deblender utilities of \<^verbatim>\<open>src/BaselineUtils.cc\<close> work on spans, footprints and dense
  images. All coordinates and sizes are C++ \<^verbatim>\<open>int\<close>; they are modelled as unbounded
  \<^typ>\<open>int\<close> (pixel coordinates stay far away from the 32-bit limits). The pixel type
  \<^verbatim>\<open>ImagePixelT\<close> is a template parameter of the class, which is instantiated for
  \<^verbatim>\<open>float\<close> only; the order-only routines are modelled for any linear order, the
  arithmetic ones over the finite floating-point numbers of the section below.
\<close>

text \<open>
  The exceptions of the source; \<open>ReadPastEnd\<close> stands for an access behind the end of an
  array, vector or pixel buffer, where the source has no check and no defined behaviour.
\<close>

datatype fault = LengthError | RuntimeError | ReadPastEnd

section \<open>Floating point\<close>

text \<open>
  A finite \<^verbatim>\<open>float\<close> or \<^verbatim>\<open>double\<close> is modelled by the real number it stands for, and an
  arithmetic operation of the source by the exact operation followed by the rounding of
  IEEE 754: to the nearest representable number, ties to the even significand, with gradual
  underflow. \<open>round_fp p emin\<close> rounds to \<open>p\<close> significant bits, the unit in the last place
  being at least \<open>2^emin\<close>; \<open>dbl\<close> is the rounding of \<^verbatim>\<open>double\<close> (53 bits), \<open>flt\<close> that of
  \<^verbatim>\<open>float\<close> (24 bits). Comparisons, \<^verbatim>\<open>std::min\<close>, \<^verbatim>\<open>std::max\<close>, the conversion of a
  \<^verbatim>\<open>float\<close> to \<^verbatim>\<open>double\<close> and of a 32-bit \<^verbatim>\<open>int\<close> to \<^verbatim>\<open>double\<close> are exact. Not-a-number,
  the infinities and overflow are outside the model: all values are finite.
\<close>

text \<open>Rounding to the nearest integer, ties to even.\<close>

definition rne :: "real \<Rightarrow> int" where
  "rne x = (let f = \<lfloor>x\<rfloor>; r = x - real_of_int f
            in if r < 1 / 2 then f else if 1 / 2 < r then f + 1
               else if even f then f else f + 1)"

definition pow2 :: "int \<Rightarrow> real" where
  "pow2 e = (if 0 \<le> e then 2 ^ nat e else 1 / 2 ^ nat (- e))"

text \<open>The binary exponent \<open>\<lfloor>log\<^sub>2 x\<rfloor>\<close> of a positive number.\<close>

definition ilog2 :: "real \<Rightarrow> int" where
  "ilog2 x = (if 1 \<le> x then bitlen \<lfloor>x\<rfloor> - 1 else - bitlen (\<lceil>1 / x\<rceil> - 1))"

definition round_fp :: "int \<Rightarrow> int \<Rightarrow> real \<Rightarrow> real" where
  "round_fp p emin x =
     (if x = 0 then 0
      else let e = max (ilog2 \<bar>x\<bar> - (p - 1)) emin
           in real_of_int (rne (x / pow2 e)) * pow2 e)"

definition dbl :: "real \<Rightarrow> real" where
  "dbl = round_fp 53 (- 1074)"

definition flt :: "real \<Rightarrow> real" where
  "flt = round_fp 24 (- 149)"

text \<open>A span \<^verbatim>\<open>Span(y, x0, x1)\<close> is the run of pixels \<open>x0 .. x1\<close> of row \<open>y\<close>.\<close>

record span =
  sp_y :: int
  sp_x0 :: int
  sp_x1 :: int

definition Span :: "int \<Rightarrow> int \<Rightarrow> int \<Rightarrow> span" where
  "Span y xa xb = \<lparr>sp_y = y, sp_x0 = xa, sp_x1 = xb\<rparr>"

text \<open>\<^verbatim>\<open>Span::contains(x, y)\<close> and \<^verbatim>\<open>Span::operator<\<close> (lexicographic on y, x0, x1).\<close>

definition span_contains :: "span \<Rightarrow> int \<Rightarrow> int \<Rightarrow> bool" where
  "span_contains s x y \<longleftrightarrow> sp_y s = y \<and> sp_x0 s \<le> x \<and> x \<le> sp_x1 s"

definition span_compare :: "span \<Rightarrow> span \<Rightarrow> bool" where
  "span_compare a b \<longleftrightarrow>
     sp_y a < sp_y b \<or>
     (sp_y a = sp_y b \<and> (sp_x0 a < sp_x0 b \<or> (sp_x0 a = sp_x0 b \<and> sp_x1 a < sp_x1 b)))"

text \<open>
  A footprint is used through its span set only: the list of its spans in iteration order.
  \<^verbatim>\<open>foot_contains\<close> is membership of a pixel in the footprint.
\<close>

type_synonym footprint = "span list"

definition foot_contains :: "footprint \<Rightarrow> int \<Rightarrow> int \<Rightarrow> bool" where
  "foot_contains f x y \<longleftrightarrow> (\<exists>s \<in> set f. span_contains s x y)"

text \<open>
  An image is a bounding box (origin \<open>x0, y0\<close> in parent coordinates, width and height) and
  its pixels, addressed as the source's iterators and locators do by the offset
  \<open>(column, row)\<close> from the origin.
\<close>

record 'a image =
  img_x0 :: int
  img_y0 :: int
  img_w :: int
  img_h :: int
  img_pix :: "int \<times> int \<Rightarrow> 'a"

definition set_pix :: "'a image \<Rightarrow> int \<times> int \<Rightarrow> 'a \<Rightarrow> 'a image" where
  "set_pix im p v = im\<lparr>img_pix := (img_pix im)(p := v)\<rparr>"

section \<open>medianFilter\<close>

text \<open>
  \<^verbatim>\<open>locs\<close>: the offsets of the \<open>S\<times>S\<close> box, row by row. \<^verbatim>\<open>std::nth_element\<close> followed by
  reading position \<open>SS/2\<close> yields the element at that position of the sorted values.
\<close>

definition median_locs :: "int \<Rightarrow> (int \<times> int) list" where
  "median_locs halfsize =
     concat (map (\<lambda>i. map (\<lambda>j. (j - halfsize, i - halfsize)) [0..2 * halfsize])
                 [0..2 * halfsize])"

definition median_at :: "('a::linorder) image \<Rightarrow> int \<Rightarrow> int \<Rightarrow> int \<Rightarrow> 'a" where
  "median_at img halfsize x y =
     (let S = halfsize * 2 + 1; SS = S * S;
          vals = map (\<lambda>(dx, dy). img_pix img (x + dx, y + dy)) (median_locs halfsize)
      in sort vals ! nat (SS div 2))"

definition copy_pixels :: "'a image \<Rightarrow> int \<Rightarrow> int list \<Rightarrow> 'a image \<Rightarrow> 'a image" where
  "copy_pixels img y xs out = fold (\<lambda>x o'. set_pix o' (x, y) (img_pix img (x, y))) xs out"

text \<open>
  The three loops of the source: the medians of the interior, then the top and bottom
  margins (whole rows), then the left and right margins of the remaining rows. The
  interior loop of a row walks from column \<open>halfsize\<close> until it meets column
  \<open>W - halfsize\<close> (\<^verbatim>\<open>inpix != end\<close>): when there is an interior row and \<open>W - halfsize\<close> lies
  left of \<open>halfsize\<close>, it never meets it and runs out of the pixel buffer, as it does for
  a negative \<open>halfsize\<close>, where \<^verbatim>\<open>locs\<close> is empty and read nevertheless. The margin loop
  addresses the rows \<open>0 .. halfsize - 1\<close> and \<open>H - halfsize .. H - 1\<close>, which do not exist
  when \<open>H < halfsize\<close>.
\<close>

definition medianFilter :: "('a::linorder) image \<Rightarrow> 'a image \<Rightarrow> int \<Rightarrow> fault + 'a image" where
  "medianFilter img out halfsize =
     (let W = img_w img; H = img_h img
      in if halfsize < 0 then Inl ReadPastEnd
      else if halfsize < H - halfsize \<and> W - halfsize < halfsize then Inl ReadPastEnd
      else if H < halfsize then Inl ReadPastEnd
      else
      let out1 = fold (\<lambda>y o1.
                    fold (\<lambda>x o2. set_pix o2 (x, y) (median_at img halfsize x y))
                         [halfsize..W - halfsize - 1] o1)
                  [halfsize..H - halfsize - 1] out;
          out2 = fold (\<lambda>y o1.
                    let iy = (if y \<ge> halfsize then H - 1 - (y - halfsize) else y)
                    in copy_pixels img iy [0..W - 1] o1)
                  [0..2 * halfsize - 1] out1;
          out3 = fold (\<lambda>y o1.
                    copy_pixels img y [(W - 1) - halfsize..(W - 1) - 1]
                      (copy_pixels img y [0..halfsize - 1] o1))
                  [halfsize..H - halfsize - 1] out2
      in Inr out3)"

definition const_image :: "int \<Rightarrow> int \<Rightarrow> int \<Rightarrow> int \<Rightarrow> 'a \<Rightarrow> 'a image" where
  "const_image xa ya w h v = \<lparr>img_x0 = xa, img_y0 = ya, img_w = w, img_h = h, img_pix = (\<lambda>_. v)\<rparr>"

section \<open>makeMonotonic\<close>

text \<open>
  \<^verbatim>\<open>std::lround\<close> rounds to the nearest integer, halfway cases away from zero. The slopes
  \<open>ds0, ds1\<close> and the products \<open>shx * ds0\<close> are \<^verbatim>\<open>double\<close>; \<open>A\<close> is the \<^verbatim>\<open>double\<close> nearest
  to 0.3.
\<close>

definition lround :: "real \<Rightarrow> int" where
  "lround r = (if r \<ge> 0 then \<lfloor>r + 1 / 2\<rfloor> else - \<lfloor>- r + 1 / 2\<rfloor>)"

definition shadow_S :: int where "shadow_S = 5"
definition shadow_A :: real where "shadow_A = dbl 0.3"

text \<open>
  The pixels (in offsets from the image origin) shadowed by the ring pixel at offset
  \<open>(x, y)\<close> from the peak, in the order of the source's loops: on a vertical edge of the
  ring the columns \<open>x + sign(x) * shx\<close>, on a horizontal edge the rows \<open>y + sign(y) * shy\<close>,
  each over the slope range \<open>[ds0, ds1]\<close>; columns and rows outside the image are skipped.
\<close>

definition vertical_cells :: "'a image \<Rightarrow> int \<Rightarrow> int \<Rightarrow> int \<Rightarrow> int \<Rightarrow> (int \<times> int) list" where
  "vertical_cells img cx cy x y =
     (let ix0 = img_x0 img; iy0 = img_y0 img; iW = img_w img; iH = img_h img;
          ds0 = dbl (dbl (real_of_int y / real_of_int x) - shadow_A);
          ds1 = dbl (ds0 + dbl (2.0 * shadow_A))
      in concat (map (\<lambda>shx.
           let xsign = (if x > 0 then 1 else - 1); psx = cx + x + (xsign * shx) - ix0
           in if psx < 0 \<or> psx \<ge> iW then []
              else concat (map (\<lambda>shy.
                     let psy = cy + y + xsign * shy - iy0
                     in if psy < 0 \<or> psy \<ge> iH then [] else [(psx, psy)])
                    [lround (dbl (real_of_int shx * ds0))..lround (dbl (real_of_int shx * ds1))]))
          [1..shadow_S]))"

definition horizontal_cells :: "'a image \<Rightarrow> int \<Rightarrow> int \<Rightarrow> int \<Rightarrow> int \<Rightarrow> (int \<times> int) list" where
  "horizontal_cells img cx cy x y =
     (let ix0 = img_x0 img; iy0 = img_y0 img; iW = img_w img; iH = img_h img;
          ds0 = dbl (dbl (real_of_int x / real_of_int y) - shadow_A);
          ds1 = dbl (ds0 + dbl (2.0 * shadow_A))
      in concat (map (\<lambda>shy.
           let ysign = (if y > 0 then 1 else - 1); psy = cy + y + (ysign * shy) - iy0
           in if psy < 0 \<or> psy \<ge> iH then []
              else concat (map (\<lambda>shx.
                     let psx = cx + x + ysign * shx - ix0
                     in if psx < 0 \<or> psx \<ge> iW then [] else [(psx, psy)])
                    [lround (dbl (real_of_int shy * ds0))..lround (dbl (real_of_int shy * ds1))]))
          [1..shadow_S]))"

text \<open>Casting the shadow: \<^verbatim>\<open>img(psx, psy) = std::min(img(psx, psy), pix)\<close> on each pixel.\<close>

definition cast_shadow :: "(int \<times> int) list \<Rightarrow> ('a::linorder) \<Rightarrow> 'a image \<Rightarrow> 'a image" where
  "cast_shadow cells pix img = fold (\<lambda>p im. set_pix im p (min (img_pix im p) pix)) cells img"

text \<open>
  One step \<open>i\<close> of the walk around the ring of half-length \<open>L\<close>; the state is the offset
  \<open>(x, y)\<close>, the direction \<open>(dx, dy)\<close> and the image. The increments \<open>x += dx, y += dy\<close> of
  the loop header also run after a \<^verbatim>\<open>continue\<close>.
\<close>

definition ring_step ::
  "int \<Rightarrow> int \<Rightarrow> ('a::linorder) image \<Rightarrow> int \<Rightarrow> int \<Rightarrow>
   int \<times> int \<times> int \<times> int \<times> 'a image \<Rightarrow> int \<times> int \<times> int \<times> int \<times> 'a image" where
  "ring_step cx cy shadowingImg L i = (\<lambda>(x, y, dx0, dy0, img).
     let leg = i div (2 * L);
         dx = (if i mod (2 * L) = 0 then (leg mod 2) * (- 1 + 2 * (leg div 2)) else dx0);
         dy = (if i mod (2 * L) = 0 then ((leg + 1) mod 2) * (1 - 2 * (leg div 2)) else dy0);
         px = cx + x - img_x0 img; py = cy + y - img_y0 img;
         img' = (if px < 0 \<or> px \<ge> img_w img \<or> py < 0 \<or> py \<ge> img_h img then img
                 else let pix = img_pix shadowingImg (px, py)
                      in if dx = 0 then cast_shadow (vertical_cells img cx cy x y) pix img
                         else cast_shadow (horizontal_cells img cx cy x y) pix img)
     in (x + dx, y + dy, dx, dy, img'))"

definition ring :: "int \<Rightarrow> int \<Rightarrow> ('a::linorder) image \<Rightarrow> int \<Rightarrow> 'a image \<Rightarrow> 'a image" where
  "ring cx cy shadowingImg L img =
     snd (snd (snd (snd (fold (ring_step cx cy shadowingImg L) [0..8 * L - 1]
                           (L, - L, 0, 0, img)))))"

text \<open>The loop over the chunk starts \<open>s = 0, S, 2S, ...\<close> below \<open>max(DW, DH)\<close>.\<close>

function chunks ::
  "int \<Rightarrow> int \<Rightarrow> int \<Rightarrow> int \<Rightarrow> ('a::linorder) image \<times> 'a image \<Rightarrow> 'a image \<times> 'a image" where
  "chunks cx cy bound s (img, shadowingImg) =
     (if s < bound
      then let img' = fold (\<lambda>p. ring cx cy shadowingImg (s + p)) [0..shadow_S - 1] img
           in chunks cx cy bound (s + shadow_S) (img', img')
      else (img, shadowingImg))"
  by pat_completeness auto
termination
  by (relation "measure (\<lambda>(cx, cy, bound, s, st). nat (bound - s))") (auto simp: shadow_S_def)

definition makeMonotonic :: "('a::linorder) image \<Rightarrow> int \<Rightarrow> int \<Rightarrow> 'a image" where
  "makeMonotonic img cx cy =
     (let DW = max (cx - img_x0 img) (img_x0 img + img_w img - cx);
          DH = max (cy - img_y0 img) (img_y0 img + img_h img - cy)
      in fst (chunks cx cy (max DW DH) 0 (img, img)))"

section \<open>Bounding boxes\<close>

text \<open>
  \<^verbatim>\<open>Box2I\<close> of the geometry library: minimum corner and dimensions; the empty box has
  dimensions zero. \<^verbatim>\<open>contains\<close>, \<^verbatim>\<open>clip\<close> (intersection) and the bounding box of a span
  set are the library's operations as the spec describes them.
\<close>

record box =
  bx_minX :: int
  bx_minY :: int
  bx_w :: int
  bx_h :: int

definition empty_box :: box where
  "empty_box = \<lparr>bx_minX = 0, bx_minY = 0, bx_w = 0, bx_h = 0\<rparr>"

definition box_isEmpty :: "box \<Rightarrow> bool" where
  "box_isEmpty b \<longleftrightarrow> bx_w b \<le> 0 \<or> bx_h b \<le> 0"

definition bx_maxX :: "box \<Rightarrow> int" where
  "bx_maxX b = bx_minX b + bx_w b - 1"

definition bx_maxY :: "box \<Rightarrow> int" where
  "bx_maxY b = bx_minY b + bx_h b - 1"

definition box_of_corners :: "int \<Rightarrow> int \<Rightarrow> int \<Rightarrow> int \<Rightarrow> box" where
  "box_of_corners xa ya xb yb =
     (if xb < xa \<or> yb < ya then empty_box
      else \<lparr>bx_minX = xa, bx_minY = ya, bx_w = xb - xa + 1, bx_h = yb - ya + 1\<rparr>)"

definition box_contains :: "box \<Rightarrow> box \<Rightarrow> bool" where
  "box_contains a b \<longleftrightarrow>
     box_isEmpty b \<or>
     (bx_minX a \<le> bx_minX b \<and> bx_minY a \<le> bx_minY b \<and>
      bx_maxX b \<le> bx_maxX a \<and> bx_maxY b \<le> bx_maxY a)"

definition box_clip :: "box \<Rightarrow> box \<Rightarrow> box" where
  "box_clip a b =
     (if box_isEmpty a \<or> box_isEmpty b then empty_box
      else box_of_corners (max (bx_minX a) (bx_minX b)) (max (bx_minY a) (bx_minY b))
                          (min (bx_maxX a) (bx_maxX b)) (min (bx_maxY a) (bx_maxY b)))"

definition getBBox :: "'a image \<Rightarrow> box" where
  "getBBox im = \<lparr>bx_minX = img_x0 im, bx_minY = img_y0 im, bx_w = img_w im, bx_h = img_h im\<rparr>"

definition box_include :: "box \<Rightarrow> int \<Rightarrow> int \<Rightarrow> box" where
  "box_include b x y =
     (if box_isEmpty b then box_of_corners x y x y
      else box_of_corners (min (bx_minX b) x) (min (bx_minY b) y)
                          (max (bx_maxX b) x) (max (bx_maxY b) y))"

definition foot_bbox :: "footprint \<Rightarrow> box" where
  "foot_bbox f =
     fold (\<lambda>s b. if sp_x1 s < sp_x0 s then b
                  else box_include (box_include b (sp_x0 s) (sp_y s)) (sp_x1 s) (sp_y s))
          f empty_box"

text \<open>\<^verbatim>\<open>new Image(bbox)\<close> and \<^verbatim>\<open>new Image(dimensions)\<close> allocate pixels of value zero.\<close>

definition new_image :: "box \<Rightarrow> 'a \<Rightarrow> 'a image" where
  "new_image b v = const_image (bx_minX b) (bx_minY b) (bx_w b) (bx_h b) v"

text \<open>\<^verbatim>\<open>get0(x, y)\<close>: the pixel at parent coordinates.\<close>

definition get0 :: "'a image \<Rightarrow> int \<Rightarrow> int \<Rightarrow> 'a" where
  "get0 im x y = img_pix im (x - img_x0 im, y - img_y0 im)"

text \<open>
  \<^verbatim>\<open>SpanSet::setImage(image, val)\<close> of the span-set library stamps \<open>val\<close> on the pixels of
  the span set (spec, section 6).
\<close>

definition setImage :: "footprint \<Rightarrow> 'a image \<Rightarrow> 'a \<Rightarrow> 'a image" where
  "setImage spans im v =
     fold (\<lambda>s im1.
        fold (\<lambda>x im2. set_pix im2 (x - img_x0 im, sp_y s - img_y0 im) v) [sp_x0 s..sp_x1 s] im1)
       spans im"

section \<open>nearestFootprint\<close>

text \<open>
  Labels and distances are \<^verbatim>\<open>std::uint16_t\<close>: values are kept as integers in
  \<open>0 .. 65535\<close> and every store of an \<^verbatim>\<open>int\<close> expression wraps modulo \<open>2^16\<close>.
\<close>

definition u16 :: "int \<Rightarrow> int" where
  "u16 n = n mod 65536"

definition nil :: int where
  "nil = 65535"

type_synonym u16_pair = "int image \<times> int image"

text \<open>The stamping loop: footprint \<open>i\<close> writes label \<open>i\<close> and distance 1 on its pixels.\<close>

fun stamp_foots :: "int \<Rightarrow> footprint list \<Rightarrow> u16_pair \<Rightarrow> u16_pair" where
  "stamp_foots i [] (argmin, dst) = (argmin, dst)"
| "stamp_foots i (foot # foots) (argmin, dst) =
     stamp_foots (i + 1) foots (setImage foot argmin (u16 i), setImage foot dst (u16 1))"

text \<open>
  One relaxation step: the pixel \<open>p\<close> takes distance and label from its neighbour \<open>q\<close>
  when \<open>ndist = dist(q) + 1\<close> (stored as \<^verbatim>\<open>uint16\<close>) is strictly smaller.
\<close>

definition relax :: "int \<times> int \<Rightarrow> int \<times> int \<Rightarrow> u16_pair \<Rightarrow> u16_pair" where
  "relax p q = (\<lambda>(aim, dim).
     let ndist = u16 (img_pix dim q + 1)
     in if ndist < img_pix dim p
        then (set_pix aim p (img_pix aim q), set_pix dim p ndist)
        else (aim, dim))"

definition fwd_pixel :: "int \<Rightarrow> int \<Rightarrow> int \<Rightarrow> int \<Rightarrow> u16_pair \<Rightarrow> u16_pair" where
  "fwd_pixel width height y x = (\<lambda>(aim, dim).
     if img_pix dim (x, y) = 1 then (aim, set_pix dim (x, y) 0)
     else
       let s0 = (set_pix aim (x, y) nil, set_pix dim (x, y) (u16 (width + height)));
           s1 = (if y > 0 then relax (x, y) (x, y - 1) s0 else s0);
           s2 = (if x > 0 then relax (x, y) (x - 1, y) s1 else s1)
       in s2)"

definition bwd_pixel :: "int \<Rightarrow> int \<Rightarrow> int \<Rightarrow> int \<Rightarrow> u16_pair \<Rightarrow> u16_pair" where
  "bwd_pixel width height y x = (\<lambda>s0.
     let s1 = (if y + 1 < height then relax (x, y) (x, y + 1) s0 else s0);
         s2 = (if x + 1 < width then relax (x, y) (x + 1, y) s1 else s1)
     in s2)"

definition nearestFootprint :: "footprint list \<Rightarrow> int image \<Rightarrow> int image \<Rightarrow> u16_pair" where
  "nearestFootprint foots argmin dst =
     (let argmin0 = argmin\<lparr>img_pix := (\<lambda>_. 0)\<rparr>;
          dist0 = dst\<lparr>img_pix := (\<lambda>_. 0)\<rparr>;
          s1 = stamp_foots 0 foots (argmin0, dist0);
          height = img_h dst; width = img_w dst;
          s2 = fold (\<lambda>y. fold (fwd_pixel width height y) [0..width - 1]) [0..height - 1] s1;
          s3 = fold (\<lambda>y. fold (bwd_pixel width height y) (rev [0..width - 1]))
                    (rev [0..height - 1]) s2
      in s3)"

section \<open>apportionFlux\<close>

text \<open>A pixel of a \<^verbatim>\<open>MaskedImage\<close>: image, mask and variance planes share the bounding box.\<close>

record mpixel =
  mp_image :: real
  mp_mask :: int
  mp_variance :: real

definition zero_mpixel :: mpixel where
  "zero_mpixel = \<lparr>mp_image = 0, mp_mask = 0, mp_variance = 0\<rparr>"

definition ASSIGN_STRAYFLUX :: int where "ASSIGN_STRAYFLUX = 0x1"
definition STRAYFLUX_TO_POINT_SOURCES_WHEN_NECESSARY :: int where
  "STRAYFLUX_TO_POINT_SOURCES_WHEN_NECESSARY = 0x2"
definition STRAYFLUX_TO_POINT_SOURCES_ALWAYS :: int where
  "STRAYFLUX_TO_POINT_SOURCES_ALWAYS = 0x4"
definition STRAYFLUX_R_TO_FOOTPRINT :: int where "STRAYFLUX_R_TO_FOOTPRINT = 0x8"
definition STRAYFLUX_NEAREST_FOOTPRINT :: int where "STRAYFLUX_NEAREST_FOOTPRINT = 0x10"
definition STRAYFLUX_TRIM :: int where "STRAYFLUX_TRIM = 0x20"

definition has_flag :: "int \<Rightarrow> int \<Rightarrow> bool" where
  "has_flag opts f \<longleftrightarrow> (opts AND f) \<noteq> 0"

subsection \<open>\_sum\_templates\<close>

text \<open>
  For each template, the rows and columns of its bounding box clipped to the box of
  \<open>tsum\<close>; \<open>tx0, ty0\<close> are taken before the clip. Every visited pixel of \<open>tsum\<close> is
  increased (\<^verbatim>\<open>+=\<close>, an addition of \<^verbatim>\<open>float\<close>) by \<open>max(0, template)\<close>.
\<close>

definition sum_one_template :: "real image \<Rightarrow> real image \<Rightarrow> real image" where
  "sum_one_template timg tsum =
     (let sumbb = getBBox tsum; sumx0 = bx_minX sumbb; sumy0 = bx_minY sumbb;
          tbb0 = getBBox timg; tx0 = bx_minX tbb0; ty0 = bx_minY tbb0;
          tbb = box_clip tbb0 sumbb; copyx0 = bx_minX tbb
      in fold (\<lambda>y ts1.
           fold (\<lambda>k ts2.
              let pin = (copyx0 - tx0 + k, y - ty0); pts = (copyx0 - sumx0 + k, y - sumy0)
              in set_pix ts2 pts (flt (img_pix ts2 pts + max 0 (img_pix timg pin))))
             [0..bx_w tbb - 1] ts1)
          [bx_minY tbb..bx_maxY tbb] tsum)"

definition sum_templates :: "real image list \<Rightarrow> real image \<Rightarrow> real image" where
  "sum_templates timgs tsum = fold sum_one_template timgs tsum"

subsection \<open>Flux portions\<close>

text \<open>
  \<open>frac\<close> is a quotient of two \<^verbatim>\<open>float\<close> values (stored in a \<^verbatim>\<open>double\<close>); the product with
  the input pixel is taken in \<^verbatim>\<open>double\<close> and stored as \<^verbatim>\<open>float\<close>.
\<close>

definition portion :: "mpixel image \<Rightarrow> real image \<Rightarrow> real image \<Rightarrow> mpixel image" where
  "portion img tsum timg =
     (let ix0 = img_x0 img; iy0 = img_y0 img;
          sumbb = getBBox tsum; sumx0 = bx_minX sumbb; sumy0 = bx_minY sumbb;
          port = new_image (getBBox timg) zero_mpixel;
          tbb0 = getBBox timg; tx0 = bx_minX tbb0; ty0 = bx_minY tbb0;
          tbb = box_clip tbb0 sumbb; copyx0 = bx_minX tbb
      in fold (\<lambda>y p1.
           fold (\<lambda>k p2.
              let pin = img_pix img (copyx0 - ix0 + k, y - iy0);
                  t = img_pix timg (copyx0 - tx0 + k, y - ty0);
                  ts = img_pix tsum (copyx0 - sumx0 + k, y - sumy0)
              in if ts = 0 then p2
                 else let frac = flt (max 0 t / ts)
                      in set_pix p2 (copyx0 - tx0 + k, y - ty0)
                           \<lparr>mp_image = flt (dbl (mp_image pin * frac)), mp_mask = mp_mask pin,
                            mp_variance = mp_variance pin\<rparr>)
             [0..bx_w tbb - 1] p1)
          [bx_minY tbb..bx_maxY tbb] port)"

subsection \<open>\_find\_stray\_flux\<close>

definition get_contrib_r_to_footprint :: "int \<Rightarrow> int \<Rightarrow> footprint \<Rightarrow> real" where
  "get_contrib_r_to_footprint x y tfoot =
     (let minr2 = fold (\<lambda>sp m.
                    let dx = sp_x0 sp - x;
                        mindx = (if dx \<ge> 0 then dx
                                 else let dx' = x - sp_x1 sp in if dx' \<ge> 0 then dx' else 0);
                        dy = sp_y sp - y
                    in min m (real_of_int (mindx * mindx + dy * dy)))
                  tfoot (10 ^ 12)
      in dbl (1 / dbl (1 + minr2)))"

text \<open>
  One recorded stray pixel of a template: the span \<^verbatim>\<open>Span(y, x, x)\<close> with the pixel, mask
  and variance values pushed on the parallel vectors.
\<close>

record stray_pixel =
  st_y :: int
  st_x :: int
  st_image :: real
  st_mask :: int
  st_variance :: real

text \<open>Is template \<open>i\<close> a point source that is being skipped?\<close>

definition skip_ptsrc :: "bool \<Rightarrow> bool list \<Rightarrow> nat \<Rightarrow> bool" where
  "skip_ptsrc ptsrcs ispsf i \<longleftrightarrow> \<not> ptsrcs \<and> ispsf \<noteq> [] \<and> ispsf ! i"

text \<open>
  The initial weights of a stray pixel in the three modes. The label of the nearest
  footprint is used as an index into \<open>contrib\<close> without a check, and so are the indices
  \<open>0 .. n - 1\<close> into \<open>pkx\<close> and \<open>pky\<close>.
\<close>

definition init_contrib ::
  "int \<Rightarrow> nat \<Rightarrow> int image \<Rightarrow> int list \<Rightarrow> int list \<Rightarrow> int \<Rightarrow> int \<Rightarrow> fault + real list" where
  "init_contrib opts n nearest pkx pky x y =
     (if has_flag opts STRAYFLUX_R_TO_FOOTPRINT then Inr (replicate n (- 1))
      else if has_flag opts STRAYFLUX_NEAREST_FOOTPRINT then
        (let i = get0 nearest x y
         in if 0 \<le> i \<and> i < int n then Inr ((replicate n 0)[nat i := 1]) else Inl ReadPastEnd)
      else if length pkx < n \<or> length pky < n then Inl ReadPastEnd
      else Inr (map (\<lambda>i. let dx = pkx ! i - x; dy = pky ! i - y
                          in dbl (1 / dbl (dbl (1 + real_of_int (dx * dx)) + real_of_int (dy * dy))))
                    [0..<n]))"

definition stray_round1 ::
  "int \<Rightarrow> int \<Rightarrow> footprint list \<Rightarrow> bool list \<Rightarrow> bool \<Rightarrow> real list \<times> real \<Rightarrow> real list \<times> real"
  where
  "stray_round1 x y tfoots ispsf ptsrcs =
     fold (\<lambda>i (contrib, csum).
        if skip_ptsrc ptsrcs ispsf i then (contrib, csum)
        else let contrib' = (if contrib ! i = - 1
                             then contrib[i := get_contrib_r_to_footprint x y (tfoots ! i)]
                             else contrib)
             in (contrib', dbl (csum + contrib' ! i)))
       [0..<length tfoots]"

definition stray_clip ::
  "footprint list \<Rightarrow> bool list \<Rightarrow> bool \<Rightarrow> real \<Rightarrow> real list \<times> real \<Rightarrow> real list \<times> real" where
  "stray_clip tfoots ispsf ptsrcs strayclip =
     fold (\<lambda>i (contrib, csum).
        if skip_ptsrc ptsrcs ispsf i then (contrib[i := 0], csum)
        else if contrib ! i < strayclip then (contrib[i := 0], csum)
        else (contrib, dbl (csum + contrib ! i)))
       [0..<length tfoots]"

definition stray_assign ::
  "nat \<Rightarrow> real list \<Rightarrow> real \<Rightarrow> int \<Rightarrow> int \<Rightarrow> mpixel \<Rightarrow> stray_pixel list list \<Rightarrow> stray_pixel list list"
  where
  "stray_assign n contrib csum x y pin =
     fold (\<lambda>i acc.
        if contrib ! i = 0 then acc
        else let p = dbl (dbl (contrib ! i / csum) * mp_image pin)
             in acc[i := acc ! i @ [\<lparr>st_y = y, st_x = x, st_image = flt p, st_mask = mp_mask pin,
                                     st_variance = mp_variance pin\<rparr>]])
       [0..<n]"

text \<open>
  The body of the pixel loop for the pixel \<open>(x, y)\<close> of the parent footprint. The first
  round reads \<open>ispsf[i]\<close> for every template unless stray flux always goes to point
  sources or \<open>ispsf\<close> is empty.
\<close>

definition stray_pixel_step ::
  "real image \<Rightarrow> mpixel image \<Rightarrow> int \<Rightarrow> footprint list \<Rightarrow> bool list \<Rightarrow> int list \<Rightarrow> int list \<Rightarrow>
   real \<Rightarrow> int image \<Rightarrow> int \<Rightarrow> int \<Rightarrow> stray_pixel list list \<Rightarrow> fault + stray_pixel list list"
  where
  "stray_pixel_step tsum img opts tfoots ispsf pkx pky clipStrayFluxFraction nearest y x acc =
     (let ts = get0 tsum x y; pin = get0 img x y
      in if ts > 0 \<or> mp_image pin \<le> 0 then Inr acc
         else case init_contrib opts (length tfoots) nearest pkx pky x y of
           Inl e \<Rightarrow> Inl e
         | Inr contrib0 \<Rightarrow>
            let always = has_flag opts STRAYFLUX_TO_POINT_SOURCES_ALWAYS
            in if \<not> always \<and> ispsf \<noteq> [] \<and> length ispsf < length tfoots then Inl ReadPastEnd
            else
            let (contrib1, csum1) = stray_round1 x y tfoots ispsf always (contrib0, 0);
                necessary = (csum1 = 0 \<and>
                             has_flag opts STRAYFLUX_TO_POINT_SOURCES_WHEN_NECESSARY);
                ptsrcs = (always \<or> necessary);
                (contrib2, csum2) = (if necessary
                                     then stray_round1 x y tfoots [] True (contrib1, csum1)
                                     else (contrib1, csum1));
                strayclip = dbl (clipStrayFluxFraction * csum2);
                (contrib3, csum3) = stray_clip tfoots ispsf ptsrcs strayclip (contrib2, 0)
            in Inr (stray_assign (length tfoots) contrib3 csum3 x y pin acc))"

text \<open>A loop that stops at the first fault.\<close>

fun fold_fault :: "('a \<Rightarrow> 's \<Rightarrow> fault + 's) \<Rightarrow> 'a list \<Rightarrow> 's \<Rightarrow> fault + 's" where
  "fold_fault f [] s = Inr s"
| "fold_fault f (a # as) s = (case f a s of Inl e \<Rightarrow> Inl e | Inr s' \<Rightarrow> fold_fault f as s')"

text \<open>
  The footprint list handed to \<^verbatim>\<open>nearestFootprint\<close>: point sources are replaced by an
  empty footprint unless stray flux always goes to point sources.
\<close>

definition nearest_footlist :: "bool \<Rightarrow> bool list \<Rightarrow> footprint list \<Rightarrow> footprint list" where
  "nearest_footlist always ispsf tfoots =
     (if \<not> always \<and> ispsf \<noteq> []
      then map (\<lambda>i. if ispsf ! i then [] else tfoots ! i) [0..<length tfoots]
      else tfoots)"

text \<open>
  The result for template \<open>i\<close> is a null heavy footprint (\<open>None\<close>) when no stray pixel was
  recorded for it, otherwise the heavy footprint of the recorded pixels in recording order.
  Building the footprint list for \<^verbatim>\<open>nearestFootprint\<close> reads \<open>ispsf[i]\<close> for every template.
\<close>

definition find_stray_flux ::
  "footprint \<Rightarrow> real image \<Rightarrow> mpixel image \<Rightarrow> int \<Rightarrow> footprint list \<Rightarrow> bool list \<Rightarrow>
   int list \<Rightarrow> int list \<Rightarrow> real \<Rightarrow> fault + stray_pixel list option list" where
  "find_stray_flux foot tsum img opts tfoots ispsf pkx pky clipStrayFluxFraction =
     (let sumbb = getBBox tsum;
          always = has_flag opts STRAYFLUX_TO_POINT_SOURCES_ALWAYS;
          nearest = (if has_flag opts STRAYFLUX_NEAREST_FOOTPRINT
                     then fst (nearestFootprint (nearest_footlist always ispsf tfoots)
                                 (new_image sumbb 0) (new_image sumbb 0))
                     else new_image empty_box 0)
      in if has_flag opts STRAYFLUX_NEAREST_FOOTPRINT \<and> \<not> always \<and> ispsf \<noteq> [] \<and>
            length ispsf < length tfoots
         then Inl ReadPastEnd
         else
         case fold_fault (\<lambda>s. fold_fault
                 (stray_pixel_step tsum img opts tfoots ispsf pkx pky
                    clipStrayFluxFraction nearest (sp_y s))
                 [sp_x0 s..sp_x1 s])
               foot (replicate (length tfoots) []) of
           Inl e \<Rightarrow> Inl e
         | Inr acc \<Rightarrow> Inr (map (\<lambda>px. if px = [] then None else Some px) acc))"

subsection \<open>apportionFlux\<close>

text \<open>
  The containment checks run inside the loop over the templates, in the order of the
  source. The result holds the flux portions, the stray heavy footprints (empty when
  stray flux is not requested) and the template sum left in \<open>tsum\<close>. An exception comes
  with the state of the caller's \<open>tsum\<close> at that moment: the checks of \<open>ispsf\<close>, \<open>pkx\<close> and
  \<open>pky\<close> run after \<^verbatim>\<open>_sum_templates\<close> has written to it.
\<close>

fun check_templates ::
  "mpixel image \<Rightarrow> footprint \<Rightarrow> (real image \<times> footprint) list \<Rightarrow> fault option" where
  "check_templates img foot [] = None"
| "check_templates img foot ((timg, tfoot) # rest) =
     (if \<not> box_contains (getBBox timg) (foot_bbox tfoot) then Some RuntimeError
      else if \<not> box_contains (getBBox img) (foot_bbox foot) then Some RuntimeError
      else check_templates img foot rest)"

definition apportionFlux ::
  "mpixel image \<Rightarrow> footprint \<Rightarrow> real image list \<Rightarrow> footprint list \<Rightarrow> real image option \<Rightarrow>
   bool list \<Rightarrow> int list \<Rightarrow> int list \<Rightarrow> int \<Rightarrow> real \<Rightarrow>
   (fault \<times> real image option) +
   (mpixel image list \<times> stray_pixel list option list \<times> real image)" where
  "apportionFlux img foot timgs tfoots tsum ispsf pkx pky strayFluxOptions clipStrayFluxFraction =
     (if length timgs \<noteq> length tfoots then Inl (LengthError, tsum)
      else case check_templates img foot (zip timgs tfoots) of
        Some e \<Rightarrow> Inl (e, tsum)
      | None \<Rightarrow>
         let findStrayFlux = has_flag strayFluxOptions ASSIGN_STRAYFLUX;
             fbb = foot_bbox foot;
             tsum0 = (case tsum of None \<Rightarrow> new_image fbb 0 | Some t \<Rightarrow> t)
         in if \<not> box_contains (getBBox tsum0) fbb then Inl (RuntimeError, tsum)
            else
              let tsum1 = sum_templates timgs tsum0;
                  written = map_option (\<lambda>_. tsum1) tsum;
                  portions = map (portion img tsum1) timgs
              in if findStrayFlux then
                   (if length ispsf > 0 \<and> length ispsf \<noteq> length timgs
                    then Inl (LengthError, written)
                    else if length pkx \<noteq> length timgs \<or> length pky \<noteq> length timgs
                    then Inl (LengthError, written)
                    else case find_stray_flux foot tsum1 img strayFluxOptions tfoots ispsf
                                pkx pky clipStrayFluxFraction of
                           Inl e \<Rightarrow> Inl (e, written)
                         | Inr strays \<Rightarrow> Inr (portions, strays, tsum1))
                 else Inr (portions, [], tsum1))"

section \<open>symmetrizeFootprint\<close>

text \<open>
  \<^verbatim>\<open>std::upper_bound(spans.begin(), spans.end(), target, span_compare)\<close>: the position of the
  first span greater than the target (the spans of a span set are sorted).
\<close>

definition upper_bound :: "footprint \<Rightarrow> span \<Rightarrow> nat" where
  "upper_bound spans target = length (takeWhile (\<lambda>s. \<not> span_compare target s) spans)"

text \<open>
  The search for the span holding the peak. The result is the position of that span, or
  \<open>None\<close> where the source warns and returns a null footprint. Where the source
  dereferences \<^verbatim>\<open>spans.end()\<close> the model reports \<open>ReadPastEnd\<close>.
\<close>

definition find_peakspan :: "footprint \<Rightarrow> int \<Rightarrow> int \<Rightarrow> fault + nat option" where
  "find_peakspan spans cx cy =
     (let target = Span cy cx cx;
          peakspan = upper_bound spans target
      in if peakspan = 0 then
           (if peakspan < length spans then
              (if \<not> span_contains (spans ! peakspan) cx cy then Inr None
               else Inr (Some peakspan))
            else Inl ReadPastEnd)
         else
           (let peakspan1 = peakspan - 1
            in if \<not> span_contains (spans ! peakspan1) cx cy then
                 (let peakspan2 = peakspan1 + 1
                  in if peakspan2 < length spans then
                       (if \<not> span_contains (spans ! peakspan2) cx cy then Inr None
                        else Inr (Some peakspan2))
                     else Inl ReadPastEnd)
               else Inr (Some peakspan1)))"

text \<open>
  A \<^verbatim>\<open>RelativeSpanIterator\<close> is modelled by the spans it has still to visit, the current
  one first: for the forward iterator the spans from its position to the end, for the
  backward iterator the spans from its position down to the first, in that order. So
  \<^verbatim>\<open>notDone()\<close> is non-emptiness, \<^verbatim>\<open>++\<close> drops the head, and two iterators over the same
  span set are equal when they have equally many spans left.
\<close>

definition it_dxlo :: "bool \<Rightarrow> int \<Rightarrow> span \<Rightarrow> int" where
  "it_dxlo forward cx s = (if forward then sp_x0 s - cx else cx - sp_x1 s)"

definition it_dxhi :: "bool \<Rightarrow> int \<Rightarrow> span \<Rightarrow> int" where
  "it_dxhi forward cx s = (if forward then sp_x1 s - cx else cx - sp_x0 s)"

definition it_dy :: "int \<Rightarrow> span \<Rightarrow> int" where
  "it_dy cy s = \<bar>sp_y s - cy\<bar>"

text \<open>\<^verbatim>\<open>for (fend = fwd; fend.notDone(); ++fend) if (fend.dy() != dy) break;\<close>\<close>

definition row_end :: "int \<Rightarrow> int \<Rightarrow> span list \<Rightarrow> span list" where
  "row_end cy dy it = dropWhile (\<lambda>s. it_dy cy s = dy) it"

text \<open>\<^verbatim>\<open>while ((it != end) && (it.dxhi() < lo)) it++;\<close>\<close>

fun advance_to :: "bool \<Rightarrow> int \<Rightarrow> int \<Rightarrow> span list \<Rightarrow> span list \<Rightarrow> span list" where
  "advance_to forward cx lo end [] = []"
| "advance_to forward cx lo end (s # it) =
     (if length (s # it) \<noteq> length end \<and> it_dxhi forward cx s < lo
      then advance_to forward cx lo end it else s # it)"

text \<open>
  One pass through the body of the main loop; the state holds the two iterators, \<open>dy\<close>
  and the spans emitted so far.
\<close>

type_synonym sym_state = "span list \<times> span list \<times> int \<times> span list"

definition sym_step :: "int \<Rightarrow> int \<Rightarrow> sym_state \<Rightarrow> sym_state" where
  "sym_step cx cy = (\<lambda>(fwd, back, dy, tmpSpans).
     let fy = cy + dy; by = cy - dy;
         fdxlo = it_dxlo True cx (hd fwd);
         bdxlo = it_dxlo False cx (hd back);
         fend = row_end cy dy fwd;
         bend = row_end cy dy back;
         fwd1 = (if bdxlo > fdxlo then advance_to True cx bdxlo fend fwd else fwd);
         back1 = (if bdxlo > fdxlo then back
                  else if fdxlo > bdxlo then advance_to False cx fdxlo bend back else back)
     in if length back1 = length bend \<or> length fwd1 = length fend
        then (fend, bend, dy + 1, tmpSpans)
        else
          let dxlo = max (it_dxlo True cx (hd fwd1)) (it_dxlo False cx (hd back1));
              dxhi = min (it_dxhi True cx (hd fwd1)) (it_dxhi False cx (hd back1));
              tmpSpans1 = (if dxlo \<le> dxhi
                           then tmpSpans @ [Span fy (cx + dxlo) (cx + dxhi),
                                            Span by (cx - dxhi) (cx - dxlo)]
                           else tmpSpans);
              fwd2 = (if it_dxhi True cx (hd fwd1) < it_dxhi False cx (hd back1)
                      then tl fwd1 else fwd1);
              back2 = (if it_dxhi True cx (hd fwd1) < it_dxhi False cx (hd back1)
                       then back1 else tl back1)
          in if length back2 = length bend \<or> length fwd2 = length fend
             then (fend, bend, dy + 1, tmpSpans1)
             else (fwd2, back2, dy, tmpSpans1))"

text \<open>\<^verbatim>\<open>while (fwd.notDone() && back.notDone())\<close>; \<open>None\<close> is a loop that never ends.\<close>

partial_function (option) sym_loop :: "int \<Rightarrow> int \<Rightarrow> sym_state \<Rightarrow> span list option" where
  "sym_loop cx cy st =
     (if fst st \<noteq> [] \<and> fst (snd st) \<noteq> [] then sym_loop cx cy (sym_step cx cy st)
      else Some (snd (snd (snd st))))"

text \<open>
  The result is a fault, a null footprint (\<open>None\<close>) or the footprint made of the emitted
  spans. The span-set constructor of the library sorts and merges the emitted spans and
  keeps their pixels; the model returns the emitted spans as they are.
\<close>

definition symmetrizeFootprint ::
  "footprint \<Rightarrow> int \<Rightarrow> int \<Rightarrow> (fault + footprint option) option" where
  "symmetrizeFootprint foot cx cy =
     (case find_peakspan foot cx cy of
        Inl e \<Rightarrow> Some (Inl e)
      | Inr None \<Rightarrow> Some (Inr None)
      | Inr (Some peakspan) \<Rightarrow>
          map_option (\<lambda>tmpSpans. Inr (Some tmpSpans))
            (sym_loop cx cy (drop peakspan foot, rev (take (Suc peakspan) foot), 0, [])))"

section \<open>Auxiliary notions for the proofs\<close>

text \<open>
  \<open>shaded pk a b\<close>: the image \<open>a\<close> arises from \<open>b\<close> by lowering pixels other than \<open>pk\<close>.
\<close>

definition shaded :: "int \<times> int \<Rightarrow> ('a::linorder) image \<Rightarrow> 'a image \<Rightarrow> bool" where
  "shaded pk a b \<longleftrightarrow>
     img_x0 a = img_x0 b \<and> img_y0 a = img_y0 b \<and> img_w a = img_w b \<and> img_h a = img_h b \<and>
     img_pix a pk = img_pix b pk \<and> (\<forall>p. img_pix a p \<le> img_pix b p)"

subsection \<open>Notions for the shadows of makeMonotonic\<close>

text \<open>
  The ring of half-length \<open>L\<close> is walked from the offset \<open>(L, -L)\<close> up the right edge, left
  along the top edge, down the left edge and right along the bottom edge; a corner belongs
  to the edge that starts there. \<open>on_vertical_edge x y\<close> says that the offset \<open>(x, y)\<close> is
  visited on the right or left edge of its ring, and \<open>shadow_of img cx cy x y\<close> lists the
  pixels of the image shadowed by the pixel at that offset from the peak.
\<close>

definition on_vertical_edge :: "int \<Rightarrow> int \<Rightarrow> bool" where
  "on_vertical_edge x y \<longleftrightarrow>
     (x = max \<bar>x\<bar> \<bar>y\<bar> \<and> y < max \<bar>x\<bar> \<bar>y\<bar>) \<or> (x = - max \<bar>x\<bar> \<bar>y\<bar> \<and> - max \<bar>x\<bar> \<bar>y\<bar> < y)"

definition shadow_of :: "'a image \<Rightarrow> int \<Rightarrow> int \<Rightarrow> int \<Rightarrow> int \<Rightarrow> (int \<times> int) list" where
  "shadow_of img cx cy x y =
     (if on_vertical_edge x y then vertical_cells img cx cy x y
      else horizontal_cells img cx cy x y)"

text \<open>
  The position and the direction of the walk at its step \<open>i\<close>, the pixels shadowed at that
  step, and the invariant of the walk.
\<close>

definition ring_pos :: "int \<Rightarrow> int \<Rightarrow> int \<times> int" where
  "ring_pos L i =
     (let leg = i div (2 * L); r = i mod (2 * L)
      in if leg = 0 then (L, - L + r) else if leg = 1 then (L - r, L)
         else if leg = 2 then (- L, L - r) else (- L + r, - L))"

definition ring_dir :: "int \<Rightarrow> int \<Rightarrow> int \<times> int" where
  "ring_dir L i =
     (let leg = i div (2 * L)
      in ((leg mod 2) * (- 1 + 2 * (leg div 2)), ((leg + 1) mod 2) * (1 - 2 * (leg div 2))))"

definition shadow_cells :: "'a image \<Rightarrow> int \<Rightarrow> int \<Rightarrow> int \<Rightarrow> int \<Rightarrow> (int \<times> int) list" where
  "shadow_cells img cx cy L i =
     (if fst (ring_dir L i) = 0
      then vertical_cells img cx cy (fst (ring_pos L i)) (snd (ring_pos L i))
      else horizontal_cells img cx cy (fst (ring_pos L i)) (snd (ring_pos L i)))"

definition same_frame :: "'a image \<Rightarrow> 'b image \<Rightarrow> bool" where
  "same_frame a b \<longleftrightarrow>
     img_x0 a = img_x0 b \<and> img_y0 a = img_y0 b \<and> img_w a = img_w b \<and> img_h a = img_h b"

definition st_img :: "int \<times> int \<times> int \<times> int \<times> 'a image \<Rightarrow> 'a image" where
  "st_img st = snd (snd (snd (snd st)))"

definition walk_ok :: "int \<Rightarrow> int \<Rightarrow> 'a image \<Rightarrow> int \<times> int \<times> int \<times> int \<times> 'a image \<Rightarrow> bool" where
  "walk_ok L k img st \<longleftrightarrow>
     (fst st, fst (snd st)) = ring_pos L k \<and>
     (k mod (2 * L) \<noteq> 0 \<longrightarrow> (fst (snd (snd st)), fst (snd (snd (snd st)))) = ring_dir L k) \<and>
     same_frame (st_img st) img"

subsection \<open>Stray flux by distance to the peaks\<close>













subsection \<open>Notions for the distance transform\<close>

text \<open>
  \<open>L1\<close> is the Manhattan distance of two pixels, \<open>in_image\<close> the pixels of a \<open>W\<close> by \<open>H\<close>
  image in local coordinates, \<open>dpix\<close> and \<open>apix\<close> read the distance and the label image of
  a pair. The remaining predicates are the loop invariants of the two sweeps: \<open>On\<close> is the
  set of stamped pixels and \<open>Own l q\<close> says that the label \<open>l\<close> belongs to a footprint
  holding the pixel \<open>q\<close>.
\<close>


definition L1 :: "int \<times> int \<Rightarrow> int \<times> int \<Rightarrow> int" where
  "L1 p q = \<bar>fst p - fst q\<bar> + \<bar>snd p - snd q\<bar>"

definition in_image :: "int \<Rightarrow> int \<Rightarrow> int \<times> int \<Rightarrow> bool" where
  "in_image W H p \<longleftrightarrow> 0 \<le> fst p \<and> fst p < W \<and> 0 \<le> snd p \<and> snd p < H"

definition dpix :: "u16_pair \<Rightarrow> int \<times> int \<Rightarrow> int" where
  "dpix s p = img_pix (snd s) p"

definition apix :: "u16_pair \<Rightarrow> int \<times> int \<Rightarrow> int" where
  "apix s p = img_pix (fst s) p"

definition cand ::
  "int \<Rightarrow> int \<Rightarrow> (int \<times> int) set \<Rightarrow> (int \<Rightarrow> int \<times> int \<Rightarrow> bool) \<Rightarrow> u16_pair \<Rightarrow> int \<times> int \<Rightarrow> bool"
  where
  "cand W H On Own s p \<longleftrightarrow>
     0 \<le> dpix s p \<and> dpix s p \<le> W + H \<and>
     (dpix s p < W + H \<longrightarrow> (\<exists>q\<in>On. L1 p q \<le> dpix s p \<and> Own (apix s p) q)) \<and>
     (dpix s p = W + H \<longrightarrow> apix s p = nil)"

definition fwd_ok ::
  "int \<Rightarrow> int \<Rightarrow> (int \<times> int) set \<Rightarrow> (int \<Rightarrow> int \<times> int \<Rightarrow> bool) \<Rightarrow> u16_pair \<Rightarrow> int \<times> int \<Rightarrow> bool"
  where
  "fwd_ok W H On Own s p \<longleftrightarrow>
     cand W H On Own s p \<and>
     (\<forall>q\<in>On. fst q \<le> fst p \<and> snd q \<le> snd p \<longrightarrow> dpix s p \<le> L1 p q)"

definition bwd_ok ::
  "int \<Rightarrow> int \<Rightarrow> (int \<times> int) set \<Rightarrow> (int \<Rightarrow> int \<times> int \<Rightarrow> bool) \<Rightarrow> u16_pair \<Rightarrow> int \<times> int \<Rightarrow> bool"
  where
  "bwd_ok W H On Own s p \<longleftrightarrow> cand W H On Own s p \<and> (\<forall>q\<in>On. dpix s p \<le> L1 p q)"

definition stamped ::
  "(int \<times> int) set \<Rightarrow> (int \<Rightarrow> int \<times> int \<Rightarrow> bool) \<Rightarrow> u16_pair \<Rightarrow> int \<times> int \<Rightarrow> bool" where
  "stamped On Own s p \<longleftrightarrow>
     (p \<in> On \<longrightarrow> dpix s p = 1 \<and> Own (apix s p) p) \<and> (p \<notin> On \<longrightarrow> dpix s p = 0)"

definition before :: "int \<Rightarrow> int \<Rightarrow> int \<times> int \<Rightarrow> bool" where
  "before x y p \<longleftrightarrow> snd p < y \<or> (snd p = y \<and> fst p < x)"

definition after :: "int \<Rightarrow> int \<Rightarrow> int \<times> int \<Rightarrow> bool" where
  "after x y p \<longleftrightarrow> snd p > y \<or> (snd p = y \<and> fst p > x)"

definition fwd_inv ::
  "int \<Rightarrow> int \<Rightarrow> (int \<times> int) set \<Rightarrow> (int \<Rightarrow> int \<times> int \<Rightarrow> bool) \<Rightarrow> int \<Rightarrow> int \<Rightarrow> u16_pair \<Rightarrow> bool"
  where
  "fwd_inv W H On Own x y s \<longleftrightarrow>
     (\<forall>p. in_image W H p \<longrightarrow>
        (if before x y p then fwd_ok W H On Own s p else stamped On Own s p))"

definition bwd_inv ::
  "int \<Rightarrow> int \<Rightarrow> (int \<times> int) set \<Rightarrow> (int \<Rightarrow> int \<times> int \<Rightarrow> bool) \<Rightarrow> int \<Rightarrow> int \<Rightarrow> u16_pair \<Rightarrow> bool"
  where
  "bwd_inv W H On Own x y s \<longleftrightarrow>
     (\<forall>p. in_image W H p \<longrightarrow>
        (if after x y p then bwd_ok W H On Own s p else fwd_ok W H On Own s p))"

text \<open>The pixels of a footprint list inside the image, and the labels they justify.\<close>

definition on_pixels :: "footprint list \<Rightarrow> int image \<Rightarrow> (int \<times> int) set" where
  "on_pixels foots im =
     {p. in_image (img_w im) (img_h im) p \<and>
         (\<exists>k<length foots. foot_contains (foots ! k) (fst p + img_x0 im) (snd p + img_y0 im))}"

definition owns :: "footprint list \<Rightarrow> int image \<Rightarrow> int \<Rightarrow> int \<times> int \<Rightarrow> bool" where
  "owns foots im l q \<longleftrightarrow>
     (\<exists>k<length foots. foot_contains (foots ! k) (fst q + img_x0 im) (snd q + img_y0 im) \<and>
        l = u16 (int k))"

text \<open>
  \<open>keeps p l x y\<close>: the pixel \<open>p\<close> of a footprint holds the label \<open>l\<close>, with the distance 1 of
  the stamp before the forward sweep reaches it and 0 afterwards.
\<close>

definition keeps :: "int \<times> int \<Rightarrow> int \<Rightarrow> int \<Rightarrow> int \<Rightarrow> u16_pair \<Rightarrow> bool" where
  "keeps p l x y s \<longleftrightarrow> apix s p = l \<and> dpix s p = (if before x y p then 0 else 1)"


section \<open>Results\<close>

subsection \<open>Rounding\<close>

lemma pow2_powr: "pow2 e = 2 powr (real_of_int e)"
  by (auto simp: pow2_def powr_realpow[symmetric] powr_minus field_simps)

lemma pow2_pos [simp]: "0 < pow2 e"
  by (simp add: pow2_powr)

lemma pow2_nz [simp]: "pow2 e \<noteq> 0"
  using pow2_pos[of e] by linarith

lemma pow2_ge0 [simp]: "0 \<le> pow2 e"
  using pow2_pos[of e] by linarith

lemma pow2_le_iff [simp]: "pow2 a \<le> pow2 b \<longleftrightarrow> a \<le> b"
  by (simp add: pow2_powr)

lemma pow2_less_iff [simp]: "pow2 a < pow2 b \<longleftrightarrow> a < b"
  by (simp add: pow2_powr)

lemma pow2_add: "pow2 (a + b) = pow2 a * pow2 b"
  by (simp add: pow2_powr powr_add)

lemma pow2_diff: "pow2 (a - b) = pow2 a / pow2 b"
  by (simp add: pow2_powr powr_diff)

lemma pow2_nat: "0 \<le> e \<Longrightarrow> pow2 e = real_of_int (2 ^ nat e)"
  by (simp add: pow2_def)

lemma ilog2_bounds:
  assumes "0 < x"
  shows "pow2 (ilog2 x) \<le> x" and "x < pow2 (ilog2 x + 1)"
proof -
  show "pow2 (ilog2 x) \<le> x"
  proof (cases "1 \<le> x")
    case True
    then have n: "0 < \<lfloor>x\<rfloor>" by simp
    have b: "1 \<le> bitlen \<lfloor>x\<rfloor>" using n by (simp add: bitlen_alt_def)
    have "real_of_int (2 ^ nat (bitlen \<lfloor>x\<rfloor> - 1)) \<le> real_of_int \<lfloor>x\<rfloor>"
      using bitlen_bounds[OF n] by (metis of_int_le_iff)
    also have "\<dots> \<le> x" by simp
    finally show ?thesis using True b by (simp add: ilog2_def pow2_def)
  next
    case False
    define c where "c = \<lceil>1 / x\<rceil>"
    have y: "1 < 1 / x" using assms False by simp
    then have c2: "2 \<le> c" unfolding c_def by linarith
    then have n: "0 < c - 1" by simp
    have b: "1 \<le> bitlen (c - 1)" using n by (simp add: bitlen_alt_def)
    have "c - 1 < 2 ^ nat (bitlen (c - 1))" using bitlen_bounds[OF n] by simp
    then have "c \<le> 2 ^ nat (bitlen (c - 1))" by simp
    then have "real_of_int c \<le> real_of_int (2 ^ nat (bitlen (c - 1)))"
      by (metis of_int_le_iff)
    moreover have "1 / x \<le> real_of_int c" unfolding c_def by simp
    ultimately have "1 / x \<le> 2 ^ nat (bitlen (c - 1))"
      by (simp only: of_int_power of_int_numeral)
    then have "1 / 2 ^ nat (bitlen (c - 1)) \<le> x"
      using assms by (simp add: field_simps)
    then show ?thesis using False b by (simp add: ilog2_def pow2_def c_def)
  qed
  show "x < pow2 (ilog2 x + 1)"
  proof (cases "1 \<le> x")
    case True
    then have n: "0 < \<lfloor>x\<rfloor>" by simp
    have b: "1 \<le> bitlen \<lfloor>x\<rfloor>" using n by (simp add: bitlen_alt_def)
    have "\<lfloor>x\<rfloor> + 1 \<le> 2 ^ nat (bitlen \<lfloor>x\<rfloor>)" using bitlen_bounds[OF n] by simp
    then have "real_of_int (\<lfloor>x\<rfloor> + 1) \<le> real_of_int (2 ^ nat (bitlen \<lfloor>x\<rfloor>))"
      by (metis of_int_le_iff)
    moreover have "x < real_of_int (\<lfloor>x\<rfloor> + 1)" by linarith
    ultimately have "x < real_of_int (2 ^ nat (bitlen \<lfloor>x\<rfloor>))" by linarith
    then show ?thesis using True b by (simp add: ilog2_def pow2_def)
  next
    case False
    define c where "c = \<lceil>1 / x\<rceil>"
    have y: "1 < 1 / x" using assms False by simp
    then have c2: "2 \<le> c" unfolding c_def by linarith
    then have n: "0 < c - 1" by simp
    have b: "1 \<le> bitlen (c - 1)" using n by (simp add: bitlen_alt_def)
    have "real_of_int (2 ^ nat (bitlen (c - 1) - 1)) \<le> real_of_int (c - 1)"
      using bitlen_bounds[OF n] by (metis of_int_le_iff)
    moreover have "real_of_int (c - 1) < 1 / x" unfolding c_def by linarith
    ultimately have lt: "2 ^ nat (bitlen (c - 1) - 1) < 1 / x" by simp
    have "x < 1 / 2 ^ nat (bitlen (c - 1) - 1)"
      using lt assms by (simp add: field_simps)
    moreover have "pow2 (- bitlen (c - 1) + 1) = 1 / 2 ^ nat (bitlen (c - 1) - 1)"
      using b by (auto simp: pow2_def)
    ultimately show ?thesis using False by (simp add: ilog2_def c_def)
  qed
qed

lemma ilog2_unique:
  assumes "pow2 k \<le> x" "x < pow2 (k + 1)"
  shows "ilog2 x = k"
proof -
  have x: "0 < x" using assms(1) pow2_pos[of k] by linarith
  have "pow2 (ilog2 x) < pow2 (k + 1)" using ilog2_bounds(1)[OF x] assms(2) by linarith
  moreover have "pow2 k < pow2 (ilog2 x + 1)" using ilog2_bounds(2)[OF x] assms(1) by linarith
  ultimately show ?thesis by simp
qed

lemma round_fp_eval:
  assumes "pow2 k \<le> \<bar>x\<bar>" "\<bar>x\<bar> < pow2 (k + 1)"
  shows "round_fp p emin x =
           real_of_int (rne (x / pow2 (max (k - (p - 1)) emin))) * pow2 (max (k - (p - 1)) emin)"
proof -
  have "0 < \<bar>x\<bar>" using assms(1) pow2_pos[of k] by linarith
  then have "x \<noteq> 0" by simp
  then show ?thesis by (simp add: round_fp_def ilog2_unique[OF assms] Let_def)
qed

lemma rne_of_int [simp]: "rne (real_of_int n) = n"
  by (simp add: rne_def)

lemma round_fp_exact:
  assumes m: "\<bar>m\<bar> < 2 ^ nat p" and e: "emin \<le> e" and p: "0 < p"
  shows "round_fp p emin (real_of_int m * pow2 e) = real_of_int m * pow2 e"
proof (cases "m = 0")
  case True
  then show ?thesis by (simp add: round_fp_def)
next
  case False
  define x where "x = real_of_int m * pow2 e"
  have x0: "x \<noteq> 0" using False by (simp add: x_def)
  have ax: "\<bar>x\<bar> = real_of_int \<bar>m\<bar> * pow2 e"
    by (simp add: x_def abs_mult abs_of_pos)
  have "real_of_int \<bar>m\<bar> < real_of_int (2 ^ nat p)" using m by (metis of_int_less_iff)
  then have "real_of_int \<bar>m\<bar> < pow2 p" using p by (simp add: pow2_def)
  then have "\<bar>x\<bar> < pow2 p * pow2 e" unfolding ax by simp
  then have lt: "\<bar>x\<bar> < pow2 (p + e)" by (simp add: pow2_add)
  have "0 < \<bar>x\<bar>" using x0 by simp
  then have "pow2 (ilog2 \<bar>x\<bar>) \<le> \<bar>x\<bar>" by (rule ilog2_bounds(1))
  then have "pow2 (ilog2 \<bar>x\<bar>) < pow2 (p + e)"
    using lt by linarith
  then have "ilog2 \<bar>x\<bar> - (p - 1) \<le> e" by simp
  define e' where "e' = max (ilog2 \<bar>x\<bar> - (p - 1)) emin"
  have e': "e' \<le> e" unfolding e'_def using \<open>ilog2 \<bar>x\<bar> - (p - 1) \<le> e\<close> e by simp
  have "x / pow2 e' = real_of_int m * pow2 (e - e')"
    by (simp add: x_def pow2_diff)
  also have "\<dots> = real_of_int (m * 2 ^ nat (e - e'))"
    using e' by (simp add: pow2_def)
  finally have q: "x / pow2 e' = real_of_int (m * 2 ^ nat (e - e'))" .
  have "round_fp p emin x = real_of_int (rne (x / pow2 e')) * pow2 e'"
    using x0 by (simp add: round_fp_def e'_def Let_def)
  also have "\<dots> = x / pow2 e' * pow2 e'"
    unfolding q rne_of_int ..
  also have "\<dots> = x" by simp
  finally show ?thesis unfolding x_def .
qed

lemma dbl_exact: "\<bar>m\<bar> < 2 ^ 53 \<Longrightarrow> - 1074 \<le> e \<Longrightarrow> dbl (real_of_int m * pow2 e) = real_of_int m * pow2 e"
  unfolding dbl_def by (rule round_fp_exact) simp_all

lemma flt_exact: "\<bar>m\<bar> < 2 ^ 24 \<Longrightarrow> - 149 \<le> e \<Longrightarrow> flt (real_of_int m * pow2 e) = real_of_int m * pow2 e"
  unfolding flt_def by (rule round_fp_exact) simp_all

lemma dbl_int: "\<bar>m\<bar> < 2 ^ 53 \<Longrightarrow> dbl (real_of_int m) = real_of_int m"
  using dbl_exact[of m 0] by (simp add: pow2_def)

lemma flt_int: "\<bar>m\<bar> < 2 ^ 24 \<Longrightarrow> flt (real_of_int m) = real_of_int m"
  using flt_exact[of m 0] by (simp add: pow2_def)

lemma dbl_eval:
  assumes "pow2 k \<le> \<bar>x\<bar>" "\<bar>x\<bar> < pow2 (k + 1)"
  shows "dbl x = real_of_int (rne (x / pow2 (max (k - 52) (- 1074)))) * pow2 (max (k - 52) (- 1074))"
  unfolding dbl_def using round_fp_eval[OF assms, of 53 "- 1074"] by simp


lemma flt_eval:
  assumes "pow2 k \<le> \<bar>x\<bar>" "\<bar>x\<bar> < pow2 (k + 1)"
  shows "flt x = real_of_int (rne (x / pow2 (max (k - 23) (- 149)))) * pow2 (max (k - 23) (- 149))"
  unfolding flt_def using round_fp_eval[OF assms, of 24 "- 149"] by simp

lemma round_fp_zero [simp]: "round_fp p emin 0 = 0"
  by (simp add: round_fp_def)

lemma dbl_zero [simp]: "dbl 0 = 0"
  by (simp add: dbl_def)

lemma flt_zero [simp]: "flt 0 = 0"
  by (simp add: flt_def)




lemma small_values:
  "flt 1 = 1" "flt 2 = 2" "flt 3 = 3" "flt 5 = 5" "flt 8 = 8" "flt (1 / 2) = 1 / 2"
  "dbl 1 = 1" "dbl 2 = 2" "dbl 3 = 3" "dbl 5 = 5" "dbl 6 = 6" "dbl 8 = 8" "dbl (1 / 2) = 1 / 2"
  using flt_int[of 1] flt_int[of 2] flt_int[of 3] flt_int[of 5] flt_int[of 8] flt_exact[of 1 "- 1"]
    dbl_int[of 1] dbl_int[of 2] dbl_int[of 3] dbl_int[of 5] dbl_int[of 6] dbl_int[of 8]
    dbl_exact[of 1 "- 1"]
  by (simp_all add: pow2_def)

subsection \<open>medianFilter\<close>

text \<open>
  C7 (fails on the code). The claim: every output pixel within \<open>halfsize\<close> of an image edge
  equals the input pixel. The right-margin loop of the source copies the columns
  \<open>W-1-halfsize .. W-2\<close>, so the last column \<open>W-1\<close> of the rows between the top and bottom
  margins is never written. For a 3 by 3 input of sevens, an output buffer of zeros and
  \<open>halfsize = 1\<close>, the pixel \<open>(2,1)\<close> lies within \<open>halfsize\<close> of the right edge and keeps
  the old content 0 of the output buffer instead of the input value 7.
\<close>

theorem medianFilter_right_margin_not_copied:
  "\<not> isl (medianFilter (const_image 0 0 3 3 (7::int)) (const_image 0 0 3 3 0) 1)
   \<and> img_pix (projr (medianFilter (const_image 0 0 3 3 (7::int)) (const_image 0 0 3 3 0) 1))
         (2, 1) = 0
   \<and> img_pix (const_image 0 0 3 3 (7::int)) (2, 1) = 7
   \<and> (2::int) \<ge> img_w (const_image 0 0 3 3 (7::int)) - 1"
  by (simp add: medianFilter_def const_image_def copy_pixels_def set_pix_def
      median_at_def median_locs_def upto.simps)

lemmas box_defs = getBBox_def box_clip_def box_isEmpty_def box_of_corners_def empty_box_def
  bx_maxX_def bx_maxY_def box_contains_def box_include_def foot_bbox_def new_image_def
  const_image_def

subsection \<open>makeMonotonic only lowers pixels\<close>

lemma shaded_refl: "shaded pk a a"
  by (simp add: shaded_def)

lemma shaded_trans: "shaded pk a b \<Longrightarrow> shaded pk b c \<Longrightarrow> shaded pk a c"
  unfolding shaded_def by (metis order_trans)

lemma shaded_fold:
  assumes "\<And>x s. x \<in> set xs \<Longrightarrow> shaded pk (f x s) s"
  shows "shaded pk (fold f xs s) s"
  using assms
proof (induction xs arbitrary: s)
  case Nil
  show ?case by (simp add: shaded_refl)
next
  case (Cons x xs)
  have "shaded pk (fold f xs (f x s)) (f x s)"
    using Cons by simp
  moreover have "shaded pk (f x s) s"
    using Cons.prems by simp
  ultimately show ?case
    by (simp add: shaded_trans)
qed

lemma shaded_set_pix_min:
  "p \<noteq> pk \<Longrightarrow> shaded pk (set_pix im p (min (img_pix im p) v)) im"
  by (simp add: shaded_def set_pix_def)

lemma shaded_cast_shadow:
  assumes "pk \<notin> set cells"
  shows "shaded pk (cast_shadow cells pix img) img"
  unfolding cast_shadow_def
  by (rule shaded_fold) (use assms in \<open>auto intro!: shaded_set_pix_min\<close>)

lemma peak_not_vertical: "(cx - img_x0 img, cy - img_y0 img) \<notin> set (vertical_cells img cx cy x y)"
  by (auto simp: vertical_cells_def Let_def split: if_splits)

lemma peak_not_horizontal:
  "(cx - img_x0 img, cy - img_y0 img) \<notin> set (horizontal_cells img cx cy x y)"
  by (auto simp: horizontal_cells_def Let_def split: if_splits)

lemma shaded_ring_step:
  "shaded (cx - img_x0 img, cy - img_y0 img)
     (snd (snd (snd (snd (ring_step cx cy sh L i (x, y, dx, dy, img)))))) img"
  by (simp add: ring_step_def Let_def shaded_refl shaded_cast_shadow peak_not_vertical
      peak_not_horizontal)

lemma shaded_ring_fold:
  "shaded (cx - img_x0 img, cy - img_y0 img)
     (snd (snd (snd (snd (fold (ring_step cx cy sh L) is (x, y, dx, dy, img)))))) img"
proof (induction "is" arbitrary: x y dx dy img)
  case Nil
  show ?case by (simp add: shaded_refl)
next
  case (Cons i "is")
  obtain x' y' dx' dy' img' where
    st: "ring_step cx cy sh L i (x, y, dx, dy, img) = (x', y', dx', dy', img')"
    by (metis prod_cases5)
  have 1: "shaded (cx - img_x0 img, cy - img_y0 img) img' img"
    using shaded_ring_step[of cx img cy sh L i x y dx dy] by (simp only: st snd_conv)
  then have eq: "img_x0 img' = img_x0 img" "img_y0 img' = img_y0 img"
    by (simp_all add: shaded_def)
  have "shaded (cx - img_x0 img, cy - img_y0 img)
     (snd (snd (snd (snd (fold (ring_step cx cy sh L) is (x', y', dx', dy', img')))))) img'"
    using Cons.IH[where img = img' and x = x' and y = y' and dx = dx' and dy = dy']
    by (simp only: eq)
  then have "shaded (cx - img_x0 img, cy - img_y0 img)
     (snd (snd (snd (snd (fold (ring_step cx cy sh L) is (x', y', dx', dy', img')))))) img"
    using 1 by (rule shaded_trans)
  then show ?case
    by (simp only: fold_simps st)
qed

lemma shaded_ring: "shaded (cx - img_x0 img, cy - img_y0 img) (ring cx cy sh L img) img"
  unfolding ring_def by (rule shaded_ring_fold)

lemma shaded_rings:
  "shaded (cx - img_x0 img, cy - img_y0 img) (fold (\<lambda>p. ring cx cy sh (s + p)) ps img) img"
proof (induction ps arbitrary: img)
  case Nil
  show ?case by (simp add: shaded_refl)
next
  case (Cons p ps)
  let ?i = "ring cx cy sh (s + p) img"
  have 1: "shaded (cx - img_x0 img, cy - img_y0 img) ?i img"
    by (rule shaded_ring)
  then have eq: "img_x0 ?i = img_x0 img" "img_y0 ?i = img_y0 img"
    by (simp_all add: shaded_def)
  have "shaded (cx - img_x0 img, cy - img_y0 img)
          (fold (\<lambda>p. ring cx cy sh (s + p)) ps ?i) ?i"
    using Cons.IH[where img = ?i] by (simp only: eq)
  then have "shaded (cx - img_x0 img, cy - img_y0 img)
          (fold (\<lambda>p. ring cx cy sh (s + p)) ps ?i) img"
    using 1 by (rule shaded_trans)
  then show ?case by simp
qed

lemma shaded_chunks:
  "shaded (cx - img_x0 img, cy - img_y0 img) (fst (chunks cx cy bound s (img, sh))) img"
proof (induction cx cy bound s "(img, sh)" arbitrary: img sh rule: chunks.induct)
  case (1 cx cy bound s img sh)
  show ?case
  proof (cases "s < bound")
    case False
    then show ?thesis by (simp add: shaded_refl)
  next
    case True
    define i where "i = fold (\<lambda>p. ring cx cy sh (s + p)) [0..shadow_S - 1] img"
    have a: "shaded (cx - img_x0 img, cy - img_y0 img) i img"
      unfolding i_def by (rule shaded_rings)
    then have eq: "img_x0 i = img_x0 img" "img_y0 i = img_y0 img"
      by (simp_all add: shaded_def)
    have "shaded (cx - img_x0 i, cy - img_y0 i)
            (fst (chunks cx cy bound (s + shadow_S) (i, i))) i"
      using "1.hyps"[OF True i_def] .
    then have "shaded (cx - img_x0 img, cy - img_y0 img)
            (fst (chunks cx cy bound (s + shadow_S) (i, i))) i"
      by (simp only: eq)
    then have b: "shaded (cx - img_x0 img, cy - img_y0 img)
            (fst (chunks cx cy bound (s + shadow_S) (i, i))) img"
      using a by (rule shaded_trans)
    have "chunks cx cy bound s (img, sh) = chunks cx cy bound (s + shadow_S) (i, i)"
      using True by (subst chunks.simps) (simp add: Let_def i_def)
    with b show ?thesis by simp
  qed
qed

text \<open>
  C5 (fails on the code). The claim: after \<open>makeMonotonic\<close> every pixel is at most the value
  at the peak. The ring of half-length \<open>L = 0\<close> has \<open>8 * 0 = 0\<close> cells, so the peak itself
  never casts a shadow, and shadows fall on columns or rows at least one step further out
  than the casting ring. In a 3 by 3 image of zeros with the value 5 to the right of the
  peak \<open>(1,1)\<close>, that neighbour keeps 5 while the peak holds 0.
\<close>

theorem makeMonotonic_neighbour_above_peak:
  "img_pix (makeMonotonic (set_pix (const_image 0 0 3 3 (0::int)) (2, 1) 5) 1 1) (2, 1) = 5 \<and>
   img_pix (makeMonotonic (set_pix (const_image 0 0 3 3 (0::int)) (2, 1) 5) 1 1) (1, 1) = 0"
  by (simp add: makeMonotonic_def const_image_def set_pix_def shadow_S_def ring_def
      ring_step_def upto.simps vertical_cells_def horizontal_cells_def cast_shadow_def Let_def)

lemma leg_decomp:
  assumes "1 \<le> (L::int)" "0 \<le> k" "k < 8 * L"
  obtains leg r where "k = leg * (2 * L) + r" "0 \<le> r" "r < 2 * L" "0 \<le> leg" "leg \<le> 3"
    "k div (2 * L) = leg" "k mod (2 * L) = r"
proof -
  define leg where "leg = k div (2 * L)"
  define r where "r = k mod (2 * L)"
  have m: "0 < 2 * L" using assms by simp
  have 1: "k = leg * (2 * L) + r"
    unfolding leg_def r_def by (rule div_mult_mod_eq[symmetric])
  have 2: "0 \<le> r" "r < 2 * L" using m by (simp_all add: r_def)
  have 3: "0 \<le> leg" using assms m by (simp add: leg_def pos_imp_zdiv_nonneg_iff)
  have "leg \<le> 3"
  proof (rule ccontr)
    assume "\<not> leg \<le> 3"
    then have "4 \<le> leg" by simp
    then have "4 * (2 * L) \<le> leg * (2 * L)" using m by (intro mult_right_mono) simp_all
    then show False using 1 2 assms by linarith
  qed
  with 1 2 3 show ?thesis by (intro that[of leg r]) (simp_all add: leg_def r_def)
qed

lemma div_mod_decomp:
  assumes "0 \<le> r" "r < m"
  shows "(leg * m + r) div m = leg" "(leg * m + r) mod (m::int) = r"
  using assms by (simp_all add: div_pos_pos_trivial mod_pos_pos_trivial)

lemma ring_dir_same_leg:
  assumes "1 \<le> L" "0 \<le> k" "(k + 1) mod (2 * L) \<noteq> 0"
  shows "ring_dir L (k + 1) = ring_dir L k"
proof -
  have m: "0 < 2 * L" using assms by simp
  define leg where "leg = k div (2 * L)"
  define r where "r = k mod (2 * L)"
  have k: "k = leg * (2 * L) + r"
    unfolding leg_def r_def by (rule div_mult_mod_eq[symmetric])
  have r: "0 \<le> r" "r < 2 * L" using m by (simp_all add: r_def)
  have "r + 1 \<noteq> 2 * L"
  proof
    assume "r + 1 = 2 * L"
    then have "k + 1 = (leg + 1) * (2 * L)" using k by (simp add: algebra_simps)
    then show False using assms(3) by simp
  qed
  then have r1: "0 \<le> r + 1" "r + 1 < 2 * L" using r by simp_all
  have "k + 1 = leg * (2 * L) + (r + 1)" using k by simp
  then have "(k + 1) div (2 * L) = leg"
    by (simp only: div_mod_decomp(1)[OF r1, of leg])
  then show ?thesis by (simp add: ring_dir_def leg_def)
qed

lemma ring_pos_step:
  assumes "1 \<le> L" "0 \<le> k" "k + 1 < 8 * L"
  shows "ring_pos L (k + 1) = (fst (ring_pos L k) + fst (ring_dir L k),
                                snd (ring_pos L k) + snd (ring_dir L k))"
proof -
  have "k < 8 * L" using assms by simp
  from leg_decomp[OF assms(1,2) this] obtain leg r where
    d: "k = leg * (2 * L) + r" "0 \<le> r" "r < 2 * L" "0 \<le> leg" "leg \<le> 3"
      "k div (2 * L) = leg" "k mod (2 * L) = r" by blast
  have legs: "leg = 0 \<or> leg = 1 \<or> leg = 2 \<or> leg = 3" using d(4,5) by auto
  show ?thesis
  proof (cases "r + 1 < 2 * L")
    case True
    have r1: "0 \<le> r + 1" using d(2) by simp
    have "k + 1 = leg * (2 * L) + (r + 1)" using d(1) by simp
    then have "(k + 1) div (2 * L) = leg" "(k + 1) mod (2 * L) = r + 1"
      by (simp_all only: div_mod_decomp[OF r1 True, of leg])
    then show ?thesis
      using legs d(6,7) by (auto simp: ring_pos_def ring_dir_def Let_def)
  next
    case False
    then have r: "r = 2 * L - 1" using d(3) by simp
    have m: "(0::int) \<le> 0" "0 < 2 * L" using assms(1) by simp_all
    have "k + 1 = (leg + 1) * (2 * L) + 0" using d(1) r by (simp add: algebra_simps)
    then have n: "(k + 1) div (2 * L) = leg + 1" "(k + 1) mod (2 * L) = 0"
      by (simp_all only: div_mod_decomp[OF m, of "leg + 1"])
    have "leg \<noteq> 3"
    proof
      assume "leg = 3"
      then have "k + 1 = 8 * L" using d(1) r by simp
      then show False using assms(3) by simp
    qed
    then have "leg = 0 \<or> leg = 1 \<or> leg = 2" using legs by simp
    then show ?thesis
      using n d(6,7) r by (auto simp: ring_pos_def ring_dir_def Let_def)
  qed
qed

lemma ring_pos_start: "1 \<le> L \<Longrightarrow> ring_pos L 0 = (L, - L)"
  by (simp add: ring_pos_def)

lemma same_frame_refl [simp]: "same_frame a a"
  by (simp add: same_frame_def)

lemma shaded_same_frame: "shaded pk a b \<Longrightarrow> same_frame a b"
  by (simp add: shaded_def same_frame_def)

lemma shaded_le: "shaded pk a b \<Longrightarrow> img_pix a p \<le> img_pix b p"
  by (cases p) (simp add: shaded_def)

lemma cells_frame:
  assumes "same_frame a b"
  shows "vertical_cells a cx cy x y = vertical_cells b cx cy x y"
        "horizontal_cells a cx cy x y = horizontal_cells b cx cy x y"
  using assms by (simp_all add: same_frame_def vertical_cells_def horizontal_cells_def)

lemma cast_shadow_pix:
  "img_pix (cast_shadow cells pix img) t =
     (if t \<in> set cells then min (img_pix img t) pix else img_pix img t)"
  unfolding cast_shadow_def
  by (induction cells arbitrary: img) (auto simp: set_pix_def min_def)

lemma cast_shadow_hit: "t \<in> set cells \<Longrightarrow> img_pix (cast_shadow cells pix img) t \<le> pix"
  by (simp add: cast_shadow_pix)

lemma ring_step_at:
  assumes ok: "walk_ok L k img (x, y, dx0, dy0, im)"
  shows "ring_step cx cy sh L k (x, y, dx0, dy0, im) =
           (x + fst (ring_dir L k), y + snd (ring_dir L k), fst (ring_dir L k), snd (ring_dir L k),
            (if cx + x - img_x0 img < 0 \<or> cx + x - img_x0 img \<ge> img_w img \<or>
                cy + y - img_y0 img < 0 \<or> cy + y - img_y0 img \<ge> img_h img then im
             else cast_shadow (shadow_cells img cx cy L k)
                    (img_pix sh (cx + x - img_x0 img, cy + y - img_y0 img)) im))"
proof -
  have fr: "same_frame im img" and pos: "(x, y) = ring_pos L k"
    and d: "k mod (2 * L) \<noteq> 0 \<Longrightarrow> (dx0, dy0) = ring_dir L k"
    using ok by (simp_all add: walk_ok_def st_img_def)
  have f: "img_x0 im = img_x0 img" "img_y0 im = img_y0 img" "img_w im = img_w img"
    "img_h im = img_h img"
    using fr by (simp_all add: same_frame_def)
  have dx: "(if k mod (2 * L) = 0
             then (k div (2 * L) mod 2) * (- 1 + 2 * (k div (2 * L) div 2)) else dx0)
            = fst (ring_dir L k)"
    using d by (auto simp: ring_dir_def Let_def)
  have dy: "(if k mod (2 * L) = 0
             then ((k div (2 * L) + 1) mod 2) * (1 - 2 * (k div (2 * L) div 2)) else dy0)
            = snd (ring_dir L k)"
    using d by (auto simp: ring_dir_def Let_def)
  have c: "shadow_cells img cx cy L k =
      (if fst (ring_dir L k) = 0 then vertical_cells im cx cy x y
       else horizontal_cells im cx cy x y)"
    using pos[symmetric] cells_frame[OF fr] by (simp add: shadow_cells_def)
  show ?thesis
    unfolding ring_step_def prod.case Let_def dx dy f c by simp
qed

lemma ring_step_walk:
  assumes L: "1 \<le> L" and k: "0 \<le> k" "k + 1 < 8 * L" and ok: "walk_ok L k img st"
  shows "walk_ok L (k + 1) img (ring_step cx cy sh L k st)"
proof -
  obtain x y dx0 dy0 im where st: "st = (x, y, dx0, dy0, im)" by (metis prod_cases5)
  have fr: "same_frame im img" and pos: "ring_pos L k = (x, y)"
    using ok by (simp_all add: walk_ok_def st_img_def st)
  have "same_frame (cast_shadow cells pix im) im" for cells pix
    unfolding cast_shadow_def same_frame_def
    by (induction cells arbitrary: im) (simp_all add: set_pix_def)
  then have fr': "same_frame (cast_shadow cells pix im) img" for cells pix
    using fr by (simp add: same_frame_def)
  show ?thesis
    unfolding st ring_step_at[OF ok[unfolded st]]
    using ring_pos_step[OF L k] ring_dir_same_leg[OF L k(1)] fr fr' pos
    by (auto simp: walk_ok_def st_img_def)
qed

lemma ring_walk:
  assumes L: "1 \<le> L"
  shows "0 \<le> k \<Longrightarrow> k < 8 * L \<Longrightarrow>
           walk_ok L k img (fold (ring_step cx cy sh L) [0..k - 1] (L, - L, 0, 0, img))"
proof (induction k rule: int_ge_induct)
  case base
  show ?case using L by (simp add: walk_ok_def ring_pos_start st_img_def)
next
  case (step k)
  have "walk_ok L k img (fold (ring_step cx cy sh L) [0..k - 1] (L, - L, 0, 0, img))"
    using step by simp
  from ring_step_walk[OF L step(1) _ this] step(3)
  have "walk_ok L (k + 1) img
          (ring_step cx cy sh L k (fold (ring_step cx cy sh L) [0..k - 1] (L, - L, 0, 0, img)))"
    by simp
  moreover have "[0..k + 1 - 1] = [0..k - 1] @ [k]"
    using step(1) by (simp add: upto_rec2)
  ultimately show ?case by simp
qed

lemma ring_hit:
  assumes L: "1 \<le> L" and i: "0 \<le> i" "i < 8 * L"
    and pos: "ring_pos L i = (x, y)"
    and q: "0 \<le> cx + x - img_x0 img" "cx + x - img_x0 img < img_w img"
           "0 \<le> cy + y - img_y0 img" "cy + y - img_y0 img < img_h img"
    and t: "t \<in> set (shadow_cells img cx cy L i)"
  shows "img_pix (ring cx cy sh L img) t \<le> img_pix sh (cx + x - img_x0 img, cy + y - img_y0 img)"
proof -
  let ?pk = "(cx - img_x0 img, cy - img_y0 img)"
  define st where "st = fold (ring_step cx cy sh L) [0..i - 1] (L, - L, 0, 0, img)"
  obtain x' y' dx0 dy0 im where st': "st = (x', y', dx0, dy0, im)" by (metis prod_cases5)
  have ok: "walk_ok L i img (x', y', dx0, dy0, im)"
    using ring_walk[OF L i, of img cx cy sh] by (simp add: st_def[symmetric] st')
  then have xy: "x' = x" "y' = y" and fr: "same_frame im img"
    using pos by (simp_all add: walk_ok_def st_img_def)
  have ok': "walk_ok L i img (x, y, dx0, dy0, im)" using ok xy by simp
  define st2 where "st2 = ring_step cx cy sh L i st"
  have "st2 = ring_step cx cy sh L i (x, y, dx0, dy0, im)"
    by (simp add: st2_def st' xy)
  then have im2: "img_pix (st_img st2) t \<le> img_pix sh (cx + x - img_x0 img, cy + y - img_y0 img)"
    unfolding ring_step_at[OF ok']
    using q t by (simp add: st_img_def cast_shadow_hit)
  obtain x2 y2 dx2 dy2 im2 where s2: "st2 = (x2, y2, dx2, dy2, im2)" by (metis prod_cases5)
  have split: "[0..8 * L - 1] = [0..i - 1] @ i # [i + 1..8 * L - 1]"
    using i by (intro upto_split3) simp_all
  have "ring cx cy sh L img = st_img (fold (ring_step cx cy sh L) [i + 1..8 * L - 1] st2)"
    unfolding ring_def split st2_def st_def by (simp add: st_img_def)
  also have "img_pix \<dots> t \<le> img_pix im2 t"
    unfolding s2 st_img_def by (rule shaded_le) (rule shaded_ring_fold)
  finally show ?thesis using im2 by (simp add: s2 st_img_def)
qed

lemma rings_hit:
  assumes L: "1 \<le> L" "s \<le> L" "L \<le> s + 4" and i: "0 \<le> i" "i < 8 * L"
    and pos: "ring_pos L i = (x, y)"
    and q: "0 \<le> cx + x - img_x0 img" "cx + x - img_x0 img < img_w img"
           "0 \<le> cy + y - img_y0 img" "cy + y - img_y0 img < img_h img"
    and t: "t \<in> set (shadow_cells img cx cy L i)"
  shows "img_pix (fold (\<lambda>p. ring cx cy sh (s + p)) [0..shadow_S - 1] img) t
           \<le> img_pix sh (cx + x - img_x0 img, cy + y - img_y0 img)"
proof -
  let ?pk = "(cx - img_x0 img, cy - img_y0 img)"
  define im1 where "im1 = fold (\<lambda>p. ring cx cy sh (s + p)) [0..L - s - 1] img"
  have sh1: "shaded ?pk im1 img" unfolding im1_def by (rule shaded_rings)
  then have fr: "same_frame im1 img" by (rule shaded_same_frame)
  then have f: "img_x0 im1 = img_x0 img" "img_y0 im1 = img_y0 img" "img_w im1 = img_w img"
    "img_h im1 = img_h img"
    by (simp_all add: same_frame_def)
  have cells: "shadow_cells im1 cx cy L i = shadow_cells img cx cy L i"
    using cells_frame[OF fr] by (simp add: shadow_cells_def)
  define im2 where "im2 = ring cx cy sh L im1"
  have hit: "img_pix im2 t \<le> img_pix sh (cx + x - img_x0 img, cy + y - img_y0 img)"
    unfolding im2_def
    using ring_hit[OF L(1) i pos, of cx im1 cy t sh] q t by (simp add: f cells)
  have split: "[0..shadow_S - 1] = [0..L - s - 1] @ (L - s) # [L - s + 1..shadow_S - 1]"
    using L by (intro upto_split3) (simp_all add: shadow_S_def)
  have "fold (\<lambda>p. ring cx cy sh (s + p)) [0..shadow_S - 1] img
          = fold (\<lambda>p. ring cx cy sh (s + p)) [L - s + 1..shadow_S - 1] im2"
    unfolding split im2_def im1_def by simp
  also have "img_pix \<dots> t \<le> img_pix im2 t"
    by (rule shaded_le) (rule shaded_rings)
  finally show ?thesis using hit by simp
qed

lemma chunks_hit:
  assumes L: "1 \<le> L" and i: "0 \<le> i" "i < 8 * L"
    and pos: "ring_pos L i = (x, y)"
  shows "s \<le> L \<Longrightarrow> L < bound \<Longrightarrow>
         0 \<le> cx + x - img_x0 img \<Longrightarrow> cx + x - img_x0 img < img_w img \<Longrightarrow>
         0 \<le> cy + y - img_y0 img \<Longrightarrow> cy + y - img_y0 img < img_h img \<Longrightarrow>
         t \<in> set (shadow_cells img cx cy L i) \<Longrightarrow>
         img_pix (fst (chunks cx cy bound s (img, img))) t
           \<le> img_pix img (cx + x - img_x0 img, cy + y - img_y0 img)"
proof (induction "nat (L - s)" arbitrary: s img rule: less_induct)
  case less
  let ?pk = "(cx - img_x0 img, cy - img_y0 img)"
  let ?q = "(cx + x - img_x0 img, cy + y - img_y0 img)"
  define im where "im = fold (\<lambda>p. ring cx cy img (s + p)) [0..shadow_S - 1] img"
  have sb: "s < bound" using less.prems by simp
  have ch: "chunks cx cy bound s (img, img) = chunks cx cy bound (s + shadow_S) (im, im)"
    using sb by (subst chunks.simps) (simp add: Let_def im_def)
  have sh: "shaded ?pk im img" unfolding im_def by (rule shaded_rings)
  then have fr: "same_frame im img" by (rule shaded_same_frame)
  then have f: "img_x0 im = img_x0 img" "img_y0 im = img_y0 img" "img_w im = img_w img"
    "img_h im = img_h img"
    by (simp_all add: same_frame_def)
  have cells: "shadow_cells im cx cy L i = shadow_cells img cx cy L i"
    using cells_frame[OF fr] by (simp add: shadow_cells_def)
  show ?case
  proof (cases "L \<le> s + 4")
    case True
    have "img_pix im t \<le> img_pix img ?q"
      unfolding im_def
      by (rule rings_hit[OF L less.prems(1) True i pos]) (use less.prems in simp_all)
    moreover have "img_pix (fst (chunks cx cy bound (s + shadow_S) (im, im))) t \<le> img_pix im t"
      by (rule shaded_le) (rule shaded_chunks)
    ultimately show ?thesis unfolding ch by simp
  next
    case False
    then have s5: "s + shadow_S \<le> L" by (simp add: shadow_S_def)
    have "img_pix (fst (chunks cx cy bound (s + shadow_S) (im, im))) t
            \<le> img_pix im (cx + x - img_x0 im, cy + y - img_y0 im)"
      by (rule less.hyps) (use less.prems s5 in \<open>simp_all add: f cells shadow_S_def\<close>)
    also have "\<dots> \<le> img_pix img ?q"
      unfolding f by (rule shaded_le[OF sh])
    finally show ?thesis unfolding ch .
  qed
qed

lemma ring_index:
  assumes "(x, y) \<noteq> (0, 0)"
  defines "L \<equiv> max \<bar>x\<bar> \<bar>y\<bar>"
  shows "\<exists>i. 0 \<le> i \<and> i < 8 * L \<and> ring_pos L i = (x, y) \<and>
             (fst (ring_dir L i) = 0 \<longleftrightarrow> on_vertical_edge x y)"
proof -
  have L: "1 \<le> L" using assms(1) unfolding L_def by auto
  have m: "0 < 2 * L" using L by simp
  have ax: "\<bar>x\<bar> \<le> L" "\<bar>y\<bar> \<le> L" unfolding L_def by simp_all
  have ring: "\<bar>x\<bar> = L \<or> \<bar>y\<bar> = L" unfolding L_def by auto
  consider (a) "x = L" "y < L" | (b) "y = L" "- L < x" | (c) "x = - L" "- L < y"
    | (d) "y = - L" "x < L"
    using ring ax L by (cases "x = L"; cases "y = L"; cases "x = - L"; cases "y = - L") auto
  then show ?thesis
  proof cases
    case a
    have r: "0 \<le> y + L" "y + L < 2 * L" using a ax by auto
    have "(0 * (2 * L) + (y + L)) div (2 * L) = 0" "(0 * (2 * L) + (y + L)) mod (2 * L) = y + L"
      by (rule div_mod_decomp[OF r])+
    then have dm: "(y + L) div (2 * L) = 0" "(y + L) mod (2 * L) = y + L" by simp_all
    have v: "on_vertical_edge x y"
      unfolding on_vertical_edge_def L_def[symmetric] using a by simp
    show ?thesis
      by (rule exI[of _ "y + L"]) (use r a v dm in \<open>simp add: ring_pos_def ring_dir_def\<close>)
  next
    case b
    have r: "0 \<le> L - x" "L - x < 2 * L" using b ax by auto
    have "(1 * (2 * L) + (L - x)) div (2 * L) = 1" "(1 * (2 * L) + (L - x)) mod (2 * L) = L - x"
      by (rule div_mod_decomp[OF r])+
    then have dm: "(2 * L + (L - x)) div (2 * L) = 1" "(2 * L + (L - x)) mod (2 * L) = L - x"
      by simp_all
    have v: "\<not> on_vertical_edge x y"
      unfolding on_vertical_edge_def L_def[symmetric] using b L by auto
    show ?thesis
      by (rule exI[of _ "2 * L + (L - x)"])
        (use r b v dm L in \<open>simp add: ring_pos_def ring_dir_def\<close>)
  next
    case c
    have r: "0 \<le> L - y" "L - y < 2 * L" using c ax by auto
    have "(2 * (2 * L) + (L - y)) div (2 * L) = 2" "(2 * (2 * L) + (L - y)) mod (2 * L) = L - y"
      by (rule div_mod_decomp[OF r])+
    then have dm: "(4 * L + (L - y)) div (2 * L) = 2" "(4 * L + (L - y)) mod (2 * L) = L - y"
      by simp_all
    have v: "on_vertical_edge x y"
      unfolding on_vertical_edge_def L_def[symmetric] using c by simp
    show ?thesis
      by (rule exI[of _ "4 * L + (L - y)"])
        (use r c v dm L in \<open>simp add: ring_pos_def ring_dir_def\<close>)
  next
    case d
    have r: "0 \<le> x + L" "x + L < 2 * L" using d ax by auto
    have "(3 * (2 * L) + (x + L)) div (2 * L) = 3" "(3 * (2 * L) + (x + L)) mod (2 * L) = x + L"
      by (rule div_mod_decomp[OF r])+
    then have dm: "(6 * L + (x + L)) div (2 * L) = 3" "(6 * L + (x + L)) mod (2 * L) = x + L"
      by simp_all
    have v: "\<not> on_vertical_edge x y"
      unfolding on_vertical_edge_def L_def[symmetric] using d L by auto
    show ?thesis
      by (rule exI[of _ "6 * L + (x + L)"])
        (use r d v dm L in \<open>simp add: ring_pos_def ring_dir_def\<close>)
  qed
qed

lemma vertical_cells_col:
  assumes "t \<in> set (vertical_cells img cx cy x y)"
  shows "\<exists>shx\<ge>1. fst t = cx + x + (if x > 0 then 1 else - 1) * shx - img_x0 img \<and>
                   0 \<le> fst t \<and> fst t < img_w img"
  using assms by (auto simp: vertical_cells_def Let_def split: if_splits)

lemma horizontal_cells_row:
  assumes "t \<in> set (horizontal_cells img cx cy x y)"
  shows "\<exists>shy\<ge>1. snd t = cy + y + (if y > 0 then 1 else - 1) * shy - img_y0 img \<and>
                   0 \<le> snd t \<and> snd t < img_h img"
  using assms by (auto simp: horizontal_cells_def Let_def split: if_splits)

lemma shadow_inside_bound:
  assumes xy: "(x, y) \<noteq> (0, 0)"
    and t: "t \<in> set (shadow_of img cx cy x y)"
  shows "max \<bar>x\<bar> \<bar>y\<bar> < max (max (cx - img_x0 img) (img_x0 img + img_w img - cx))
                            (max (cy - img_y0 img) (img_y0 img + img_h img - cy))"
proof (cases "on_vertical_edge x y")
  case True
  then have "t \<in> set (vertical_cells img cx cy x y)" using t by (simp add: shadow_of_def)
  from vertical_cells_col[OF this] obtain shx where
    s: "1 \<le> shx" "fst t = cx + x + (if x > 0 then 1 else - 1) * shx - img_x0 img"
       "0 \<le> fst t" "fst t < img_w img" by blast
  have "max \<bar>x\<bar> \<bar>y\<bar> < max (cx - img_x0 img) (img_x0 img + img_w img - cx)"
    using True s xy by (auto simp: on_vertical_edge_def split: if_splits)
  then show ?thesis by (rule less_le_trans) simp
next
  case False
  then have "t \<in> set (horizontal_cells img cx cy x y)" using t by (simp add: shadow_of_def)
  from horizontal_cells_row[OF this] obtain shy where
    s: "1 \<le> shy" "snd t = cy + y + (if y > 0 then 1 else - 1) * shy - img_y0 img"
       "0 \<le> snd t" "snd t < img_h img" by blast
  have "\<bar>y\<bar> = max \<bar>x\<bar> \<bar>y\<bar>"
    using False by (auto simp: on_vertical_edge_def max_def split: if_splits)
  then have "max \<bar>x\<bar> \<bar>y\<bar> < max (cy - img_y0 img) (img_y0 img + img_h img - cy)"
    using s xy by (auto split: if_splits)
  then show ?thesis by (rule less_le_trans) simp
qed

lemma makeMonotonic_hit:
  assumes xy: "(x, y) \<noteq> (0, 0)"
    and q: "0 \<le> cx + x - img_x0 img" "cx + x - img_x0 img < img_w img"
           "0 \<le> cy + y - img_y0 img" "cy + y - img_y0 img < img_h img"
    and t: "t \<in> set (shadow_of img cx cy x y)"
  shows "img_pix (makeMonotonic img cx cy) t
           \<le> img_pix img (cx + x - img_x0 img, cy + y - img_y0 img)"
proof -
  define L where "L = max \<bar>x\<bar> \<bar>y\<bar>"
  have L: "1 \<le> L" using xy unfolding L_def by auto
  obtain i where i: "0 \<le> i" "i < 8 * L" "ring_pos L i = (x, y)"
    "fst (ring_dir L i) = 0 \<longleftrightarrow> on_vertical_edge x y"
    using ring_index[OF xy] unfolding L_def by blast
  have c: "shadow_cells img cx cy L i = shadow_of img cx cy x y"
    using i(3,4) by (simp add: shadow_cells_def shadow_of_def)
  have b: "L < max (max (cx - img_x0 img) (img_x0 img + img_w img - cx))
                   (max (cy - img_y0 img) (img_y0 img + img_h img - cy))"
    unfolding L_def by (rule shadow_inside_bound[OF xy t])
  show ?thesis
    unfolding makeMonotonic_def Let_def
    by (rule chunks_hit[OF L i(1,2,3) _ b q]) (use L t c in simp_all)
qed

lemma shadow_A_value: "shadow_A = 5404319552844595 / 18014398509481984"
  unfolding shadow_A_def by (subst dbl_eval[of "- 2"]) (simp_all add: pow2_def rne_def)

lemma dbl_shadow_A:
  "dbl (5404319552844595 / 18014398509481984) = 5404319552844595 / 18014398509481984"
  "dbl (- (5404319552844595 / 18014398509481984)) = - (5404319552844595 / 18014398509481984)"
  "dbl (5404319552844595 / 9007199254740992) = 5404319552844595 / 9007199254740992"
proof -
  have a: "dbl (real_of_int 5404319552844595 * pow2 (- 54))
             = real_of_int 5404319552844595 * pow2 (- 54)"
    by (rule dbl_exact) simp_all
  have b: "dbl (real_of_int (- 5404319552844595) * pow2 (- 54))
             = real_of_int (- 5404319552844595) * pow2 (- 54)"
    by (rule dbl_exact) simp_all
  have c: "dbl (real_of_int 5404319552844595 * pow2 (- 53))
             = real_of_int 5404319552844595 * pow2 (- 53)"
    by (rule dbl_exact) simp_all
  show "dbl (5404319552844595 / 18014398509481984) = 5404319552844595 / 18014398509481984"
    using a by (simp add: pow2_def)
  show "dbl (- (5404319552844595 / 18014398509481984)) = - (5404319552844595 / 18014398509481984)"
    using b by (simp add: pow2_def)
  show "dbl (5404319552844595 / 9007199254740992) = 5404319552844595 / 9007199254740992"
    using c by (simp add: pow2_def)
qed


lemma slope_axis_lo:
  "dbl (dbl (real_of_int 0 / real_of_int 1) - shadow_A) = - (5404319552844595 / 18014398509481984)"
proof -
  have "dbl (real_of_int 0 / real_of_int 1) - shadow_A = - (5404319552844595 / 18014398509481984)"
    by (simp add: shadow_A_value)
  then show ?thesis by (simp only: dbl_shadow_A)
qed

lemma slope_axis_hi:
  "dbl (- (5404319552844595 / 18014398509481984) + dbl (2.0 * shadow_A))
     = 5404319552844595 / 18014398509481984"
proof -
  have "2.0 * shadow_A = 5404319552844595 / 9007199254740992"
    by (simp add: shadow_A_value)
  then have "- (5404319552844595 / 18014398509481984) + dbl (2.0 * shadow_A)
      = 5404319552844595 / 18014398509481984"
    by (simp only: dbl_shadow_A)
  then show ?thesis by (simp only: dbl_shadow_A)
qed

lemma lround_axis:
  "lround (dbl (real_of_int 1 * - (5404319552844595 / 18014398509481984))) = 0"
  "lround (dbl (real_of_int 1 * (5404319552844595 / 18014398509481984))) = 0"
proof -
  have "real_of_int 1 * - (5404319552844595 / 18014398509481984)
          = - (5404319552844595 / 18014398509481984)"
    "real_of_int 1 * (5404319552844595 / 18014398509481984)
          = 5404319552844595 / 18014398509481984"
    by simp_all
  then show "lround (dbl (real_of_int 1 * - (5404319552844595 / 18014398509481984))) = 0"
    "lround (dbl (real_of_int 1 * (5404319552844595 / 18014398509481984))) = 0"
    by (simp_all only: dbl_shadow_A) (simp_all add: lround_def)
qed

lemma vertical_cells_iff:
  "t \<in> set (vertical_cells img cx cy x y) \<longleftrightarrow>
     (\<exists>shx shy. 1 \<le> shx \<and> shx \<le> shadow_S \<and>
        lround (dbl (real_of_int shx * dbl (dbl (real_of_int y / real_of_int x) - shadow_A))) \<le> shy \<and>
        shy \<le> lround (dbl (real_of_int shx *
                  dbl (dbl (dbl (real_of_int y / real_of_int x) - shadow_A) + dbl (2.0 * shadow_A)))) \<and>
        t = (cx + x + (if x > 0 then 1 else - 1) * shx - img_x0 img,
             cy + y + (if x > 0 then 1 else - 1) * shy - img_y0 img) \<and>
        0 \<le> fst t \<and> fst t < img_w img \<and> 0 \<le> snd t \<and> snd t < img_h img)"
  by (auto simp: vertical_cells_def Let_def split: if_splits)

lemma horizontal_cells_iff:
  "t \<in> set (horizontal_cells img cx cy x y) \<longleftrightarrow>
     (\<exists>shy shx. 1 \<le> shy \<and> shy \<le> shadow_S \<and>
        lround (dbl (real_of_int shy * dbl (dbl (real_of_int x / real_of_int y) - shadow_A))) \<le> shx \<and>
        shx \<le> lround (dbl (real_of_int shy *
                  dbl (dbl (dbl (real_of_int x / real_of_int y) - shadow_A) + dbl (2.0 * shadow_A)))) \<and>
        t = (cx + x + (if y > 0 then 1 else - 1) * shx - img_x0 img,
             cy + y + (if y > 0 then 1 else - 1) * shy - img_y0 img) \<and>
        0 \<le> fst t \<and> fst t < img_w img \<and> 0 \<le> snd t \<and> snd t < img_h img)"
  by (auto simp: horizontal_cells_def Let_def split: if_splits)

lemma axis_shadow:
  "(4, 0) \<in> set (vertical_cells
       \<lparr>img_x0 = 0, img_y0 = 0, img_w = 5, img_h = 1,
         img_pix = (\<lambda>p. if p = (2, 0) then 1 else if p = (3, 0) then 3
                          else if p = (4, 0) then 9 else (0::int))\<rparr> 2 0 1 0)"
  unfolding vertical_cells_iff slope_axis_lo slope_axis_hi
  by (rule exI[of _ 1], rule exI[of _ 0]) (simp add: shadow_S_def dbl_shadow_A lround_def)

text \<open>
  C5 (amended). \<open>makeMonotonic\<close> leaves the value at the peak's pixel unchanged, never
  raises a pixel, and bounds every shadowed pixel by its shadower: if the pixel at the
  offset \<open>(x, y) \<noteq> (0, 0)\<close> from the peak lies in the image and \<open>t\<close> is a pixel of its shadow
  (the wedge of slopes within 0.3 of the direction of \<open>(x, y)\<close>, over the next five columns
  beyond a vertical edge of the ring or the next five rows beyond a horizontal edge), then
  the value at \<open>t\<close> after the call is at most the value at \<open>(x, y)\<close> before the call. The
  peak itself casts no shadow, so nothing bounds a pixel by the value at the peak.
\<close>

theorem makeMonotonic_shadow_bound:
  "img_pix (makeMonotonic img cx cy) (cx - img_x0 img, cy - img_y0 img)
     = img_pix img (cx - img_x0 img, cy - img_y0 img)
   \<and> (\<forall>p. img_pix (makeMonotonic img cx cy) p \<le> img_pix img p)
   \<and> (\<forall>x y t. (x, y) \<noteq> (0, 0) \<and>
          0 \<le> cx + x - img_x0 img \<and> cx + x - img_x0 img < img_w img \<and>
          0 \<le> cy + y - img_y0 img \<and> cy + y - img_y0 img < img_h img \<and>
          t \<in> set (shadow_of img cx cy x y) \<longrightarrow>
          img_pix (makeMonotonic img cx cy) t
            \<le> img_pix img (cx + x - img_x0 img, cy + y - img_y0 img))"
proof -
  have "shaded (cx - img_x0 img, cy - img_y0 img) (makeMonotonic img cx cy) img"
    unfolding makeMonotonic_def Let_def by (rule shaded_chunks)
  then have 1: "img_pix (makeMonotonic img cx cy) (cx - img_x0 img, cy - img_y0 img)
     = img_pix img (cx - img_x0 img, cy - img_y0 img)"
    and 2: "\<forall>p. img_pix (makeMonotonic img cx cy) p \<le> img_pix img p"
    unfolding shaded_def by blast+
  from 1 2 makeMonotonic_hit[of _ _ cx img cy] show ?thesis by blast
qed

theorem makeMonotonic_shadow_bound_witness:
  "img_pix (makeMonotonic
       \<lparr>img_x0 = 0, img_y0 = 0, img_w = 5, img_h = 1,
         img_pix = (\<lambda>p. if p = (2, 0) then 1 else if p = (3, 0) then 3
                          else if p = (4, 0) then 9 else (0::int))\<rparr> 2 0) (4, 0) \<le> 3"
proof -
  let ?I = "\<lparr>img_x0 = 0, img_y0 = 0, img_w = 5, img_h = 1,
         img_pix = (\<lambda>p. if p = (2, 0) then 1 else if p = (3, 0) then 3
                          else if p = (4, 0) then 9 else (0::int))\<rparr>"
  have t: "(4, 0) \<in> set (shadow_of ?I 2 0 1 0)"
    using axis_shadow by (simp add: shadow_of_def on_vertical_edge_def)
  show ?thesis
    using makeMonotonic_shadow_bound[of ?I 2 0, THEN conjunct2, THEN conjunct2, rule_format,
        of 1 0 "(4, 0)"] t
    by simp
qed


subsection \<open>Template sum and flux portions\<close>

text \<open>
  C6 (fails on the code). The claim: after \<open>_sum_templates\<close> the sum image holds the sum of
  \<open>max(0, template)\<close> whatever it held before. The source adds to the old contents and
  never clears them: with the old value 1 and one template of value 2 the pixel becomes 3,
  not 2.
\<close>

theorem sum_templates_adds_to_old_contents:
  "img_pix (sum_templates [const_image 0 0 1 1 2] (const_image 0 0 1 1 1)) (0, 0) = 3
   \<and> (\<Sum>t \<leftarrow> [const_image 0 0 1 1 (2::real)]. max 0 (img_pix t (0, 0))) = 2"
  by (simp add: sum_templates_def sum_one_template_def box_defs set_pix_def upto.simps
      small_values)

lemma sum_templates_example:
  "sum_templates [const_image 0 0 1 1 1] (const_image 0 0 1 1 1)
     = set_pix (const_image 0 0 1 1 1) (0, 0) 2"
  by (simp add: sum_templates_def sum_one_template_def box_defs set_pix_def upto.simps
      small_values)

lemma portion_example:
  "portion (const_image 0 0 1 1 \<lparr>mp_image = 10, mp_mask = 0, mp_variance = 0\<rparr>)
      (set_pix (const_image 0 0 1 1 1) (0, 0) 2) (const_image 0 0 1 1 1)
     = set_pix (const_image 0 0 1 1 zero_mpixel) (0, 0)
         \<lparr>mp_image = 5, mp_mask = 0, mp_variance = 0\<rparr>"
  by (simp add: portion_def box_defs set_pix_def upto.simps small_values)

text \<open>
  C2 (fails on the code, same defect as C6). The claim: where the template sum is positive
  the portions add up to the input pixel. With a caller-supplied sum image holding 1, one
  template of value 1 and the input pixel 10, the sum image becomes 2 (positive) and the
  only portion is \<open>10 * 1 / 2 = 5\<close>, not 10.
\<close>

theorem apportionFlux_prefilled_tsum_loses_flux:
  "apportionFlux (const_image 0 0 1 1 \<lparr>mp_image = 10, mp_mask = 0, mp_variance = 0\<rparr>)
           [Span 0 0 0] [const_image 0 0 1 1 1] [[Span 0 0 0]]
           (Some (const_image 0 0 1 1 1)) [] [] [] 0 0
     = Inr ([set_pix (const_image 0 0 1 1 zero_mpixel) (0, 0)
               \<lparr>mp_image = 5, mp_mask = 0, mp_variance = 0\<rparr>],
            [], set_pix (const_image 0 0 1 1 1) (0, 0) 2)"
proof -
  have chk: "check_templates (const_image 0 0 1 1 \<lparr>mp_image = 10, mp_mask = 0, mp_variance = 0\<rparr>)
      [Span 0 0 0] (zip [const_image 0 0 1 1 1] [[Span 0 0 0]]) = None"
    by (simp add: box_defs Span_def)
  have bb: "box_contains (getBBox (const_image 0 0 1 1 (1::real))) (foot_bbox [Span 0 0 0])"
    by (simp add: box_defs Span_def)
  have fl: "\<not> has_flag 0 ASSIGN_STRAYFLUX"
    by (simp add: has_flag_def)
  show ?thesis
    unfolding apportionFlux_def
    by (simp only: chk bb fl sum_templates_example portion_example Let_def list.map
        option.case list.size if_False if_True not_True_eq_False simp_thms)
qed

theorem apportionFlux_prefilled_tsum_portion_sum:
  "(case apportionFlux (const_image 0 0 1 1 \<lparr>mp_image = 10, mp_mask = 0, mp_variance = 0\<rparr>)
           [Span 0 0 0] [const_image 0 0 1 1 1] [[Span 0 0 0]]
           (Some (const_image 0 0 1 1 1)) [] [] [] 0 0 of
      Inl e \<Rightarrow> 0
    | Inr (portions, strays, tsum) \<Rightarrow> (\<Sum>p \<leftarrow> portions. mp_image (img_pix p (0, 0)))) = 5"
  using apportionFlux_prefilled_tsum_loses_flux by (simp add: set_pix_def)

text \<open>
  C8 (fails on the code). The claim: every violated precondition raises an error. The
  check that the image box contains the box of the parent footprint sits inside the loop
  over the templates; with no template it never runs, and the call returns normally
  although the 1 by 1 image at the origin does not contain the footprint pixel \<open>(5,5)\<close>.
\<close>

theorem apportionFlux_no_templates_skips_image_check:
  "\<not> box_contains (getBBox (const_image 0 0 1 1 zero_mpixel)) (foot_bbox [Span 5 5 5])
   \<and> apportionFlux (const_image 0 0 1 1 zero_mpixel) [Span 5 5 5] [] [] None [] [] [] 0 0
       = Inr ([], [], new_image (foot_bbox [Span 5 5 5]) 0)"
  by (simp add: apportionFlux_def box_defs Span_def has_flag_def ASSIGN_STRAYFLUX_def
      sum_templates_def)


theorem apportionFlux_no_templates_returns:
  "\<exists>r. apportionFlux (const_image 0 0 1 1 zero_mpixel) [Span 5 5 5] [] [] None [] [] [] 0 0
         = Inr r"
  using apportionFlux_no_templates_skips_image_check by simp


subsection \<open>Stray flux by distance to the peaks\<close>








































subsection \<open>The distance transform\<close>

lemma L1_triangle: "L1 p q \<le> L1 p n + L1 n q"
  by (simp add: L1_def)

lemma relax_other:
  "p' \<noteq> p \<Longrightarrow> dpix (relax p n s) p' = dpix s p' \<and> apix (relax p n s) p' = apix s p'"
  by (cases s) (simp add: relax_def dpix_def apix_def set_pix_def Let_def)

lemma relax_self:
  "dpix (relax p n s) p = (if u16 (dpix s n + 1) < dpix s p then u16 (dpix s n + 1) else dpix s p)"
  "apix (relax p n s) p = (if u16 (dpix s n + 1) < dpix s p then apix s n else apix s p)"
  by (cases s; simp add: relax_def dpix_def apix_def set_pix_def Let_def)+

lemma cand_relax:
  assumes p: "cand W H On Own s p" and n: "cand W H On Own s n"
    and adj: "L1 p n = 1" and small: "W + H < 65535"
  shows "cand W H On Own (relax p n s) p"
    and "dpix (relax p n s) p \<le> dpix s n + 1"
    and "dpix (relax p n s) p \<le> dpix s p"
proof -
  have dn: "0 \<le> dpix s n" "dpix s n \<le> W + H"
    using n by (simp_all add: cand_def)
  then have u: "u16 (dpix s n + 1) = dpix s n + 1"
    using small by (simp add: u16_def)
  show "dpix (relax p n s) p \<le> dpix s n + 1" "dpix (relax p n s) p \<le> dpix s p"
    by (simp_all add: relax_self u)
  show "cand W H On Own (relax p n s) p"
  proof (cases "dpix s n + 1 < dpix s p")
    case False
    then show ?thesis using p by (simp add: cand_def relax_self u)
  next
    case True
    then have lt: "dpix s n < W + H" using p by (simp add: cand_def)
    then obtain q where q: "q \<in> On" "L1 n q \<le> dpix s n" "Own (apix s n) q"
      using n by (auto simp: cand_def)
    have "L1 p q \<le> dpix s n + 1"
      using L1_triangle[of p q n] adj q(2) by simp
    moreover have "dpix s p \<le> W + H" using p by (simp add: cand_def)
    ultimately show ?thesis
      using q True lt dn by (auto simp: cand_def relax_self u)
  qed
qed


lemma cand_relax_other:
  "p' \<noteq> p \<Longrightarrow> cand W H On Own (relax p n s) p' = cand W H On Own s p'"
  by (simp add: cand_def relax_other)

lemma fwd_ok_relax_other:
  "p' \<noteq> p \<Longrightarrow> fwd_ok W H On Own (relax p n s) p' = fwd_ok W H On Own s p'"
  by (simp add: fwd_ok_def cand_relax_other relax_other)

lemma bwd_ok_relax_other:
  "p' \<noteq> p \<Longrightarrow> bwd_ok W H On Own (relax p n s) p' = bwd_ok W H On Own s p'"
  by (simp add: bwd_ok_def cand_relax_other relax_other)

lemma stamped_relax_other:
  "p' \<noteq> p \<Longrightarrow> stamped On Own (relax p n s) p' = stamped On Own s p'"
  by (simp add: stamped_def relax_other)

lemma fwd_invD:
  assumes "fwd_inv W H On Own x y s" "in_image W H p"
  shows "before x y p \<Longrightarrow> fwd_ok W H On Own s p"
    and "\<not> before x y p \<Longrightarrow> stamped On Own s p"
  using assms unfolding fwd_inv_def by metis+

lemma bwd_invD:
  assumes "bwd_inv W H On Own x y s" "in_image W H p"
  shows "after x y p \<Longrightarrow> bwd_ok W H On Own s p"
    and "\<not> after x y p \<Longrightarrow> fwd_ok W H On Own s p"
  using assms unfolding bwd_inv_def by metis+

text \<open>The forward step at an unprocessed pixel.\<close>

lemma fwd_pixel_other:
  assumes "p' \<noteq> (x, y)"
  shows "dpix (fwd_pixel W H y x s) p' = dpix s p'" "apix (fwd_pixel W H y x s) p' = apix s p'"
  using assms
  by (cases s; simp add: fwd_pixel_def Let_def relax_other;
      simp add: dpix_def apix_def set_pix_def)+

lemma fwd_pixel_ok:
  assumes inv: "fwd_inv W H On Own x y s"
    and xy: "0 \<le> x" "x < W" "0 \<le> y" "y < H"
    and small: "W + H < 65535"
    and sub: "\<And>q. q \<in> On \<Longrightarrow> in_image W H q"
  shows "fwd_ok W H On Own (fwd_pixel W H y x s) (x, y)"
proof -
  obtain aim dim where s: "s = (aim, dim)" by (cases s)
  have here: "in_image W H (x, y)" using xy by (simp add: in_image_def)
  have nb: "\<not> before x y (x, y)" by (simp add: before_def)
  have st: "stamped On Own s (x, y)"
    using fwd_invD(2)[OF inv here nb] .
  show ?thesis
  proof (cases "img_pix dim (x, y) = 1")
    case True
    then have on: "(x, y) \<in> On" "Own (apix s (x, y)) (x, y)"
      using st by (auto simp: stamped_def dpix_def s)
    have d: "dpix (fwd_pixel W H y x s) (x, y) = 0"
      "apix (fwd_pixel W H y x s) (x, y) = apix s (x, y)"
      using True by (simp_all add: fwd_pixel_def s dpix_def apix_def set_pix_def)
    have "\<exists>q\<in>On. L1 (x, y) q \<le> 0 \<and> Own (apix s (x, y)) q"
      using on by (intro bexI[of _ "(x, y)"]) (simp_all add: L1_def)
    then show ?thesis
      using xy d by (auto simp: fwd_ok_def cand_def L1_def)
  next
    case False
    then have off: "(x, y) \<notin> On"
      using st by (auto simp: stamped_def dpix_def s)
    define s0 where "s0 = (set_pix aim (x, y) nil, set_pix dim (x, y) (u16 (W + H)))"
    define s1 where "s1 = (if y > 0 then relax (x, y) (x, y - 1) s0 else s0)"
    define s2 where "s2 = (if x > 0 then relax (x, y) (x - 1, y) s1 else s1)"
    have res: "fwd_pixel W H y x s = s2"
      using False by (simp add: fwd_pixel_def s s0_def s1_def s2_def Let_def)
    have wh: "u16 (W + H) = W + H" using xy small by (simp add: u16_def)
    have s0_other: "dpix s0 p' = dpix s p'" "apix s0 p' = apix s p'" if "p' \<noteq> (x, y)" for p'
      using that by (simp_all add: s0_def s dpix_def apix_def set_pix_def)
    have c0: "cand W H On Own s0 (x, y)"
      using xy by (simp add: cand_def s0_def dpix_def apix_def set_pix_def wh)
    have d0: "dpix s0 (x, y) = W + H"
      by (simp add: s0_def dpix_def set_pix_def wh)
    have nb_fwd: "fwd_ok W H On Own s0 p'" if "in_image W H p'" "before x y p'" for p'
    proof -
      have "p' \<noteq> (x, y)" using that(2) by (auto simp: before_def)
      moreover have "fwd_ok W H On Own s p'" using fwd_invD(1)[OF inv that] .
      ultimately show ?thesis by (simp add: fwd_ok_def cand_def s0_other)
    qed
    text \<open>north\<close>
    have c1: "cand W H On Own s1 (x, y)" and le1: "dpix s1 (x, y) \<le> dpix s0 (x, y)"
      and n1: "y > 0 \<Longrightarrow> dpix s1 (x, y) \<le> dpix s0 (x, y - 1) + 1"
    proof -
      have nbN: "fwd_ok W H On Own s0 (x, y - 1)" if "y > 0"
        using that xy by (intro nb_fwd) (simp_all add: in_image_def before_def)
      have adj: "L1 (x, y) (x, y - 1) = 1" by (simp add: L1_def)
      show "cand W H On Own s1 (x, y)"
        using cand_relax(1)[OF c0 _ adj small] nbN c0 by (simp add: s1_def fwd_ok_def)
      show "dpix s1 (x, y) \<le> dpix s0 (x, y)"
        using cand_relax(3)[OF c0 _ adj small] nbN by (simp add: s1_def fwd_ok_def)
      show "y > 0 \<Longrightarrow> dpix s1 (x, y) \<le> dpix s0 (x, y - 1) + 1"
        using cand_relax(2)[OF c0 _ adj small] nbN by (simp add: s1_def fwd_ok_def)
    qed
    have s1_other: "dpix s1 p' = dpix s0 p'" "apix s1 p' = apix s0 p'" if "p' \<noteq> (x, y)" for p'
      using that by (simp_all add: s1_def relax_other)
    text \<open>west\<close>
    have c2: "cand W H On Own s2 (x, y)" and le2: "dpix s2 (x, y) \<le> dpix s1 (x, y)"
      and n2: "x > 0 \<Longrightarrow> dpix s2 (x, y) \<le> dpix s0 (x - 1, y) + 1"
    proof -
      have nbW0: "fwd_ok W H On Own s0 (x - 1, y)" if "x > 0"
        using that xy by (intro nb_fwd) (simp_all add: in_image_def before_def)
      have nbW: "cand W H On Own s1 (x - 1, y)" if "x > 0"
        using nbW0[OF that] by (simp add: fwd_ok_def cand_def s1_other)
      have adj: "L1 (x, y) (x - 1, y) = 1" by (simp add: L1_def)
      show "cand W H On Own s2 (x, y)"
        using cand_relax(1)[OF c1 _ adj small] nbW c1 by (simp add: s2_def)
      show "dpix s2 (x, y) \<le> dpix s1 (x, y)"
        using cand_relax(3)[OF c1 _ adj small] nbW by (simp add: s2_def)
      show "x > 0 \<Longrightarrow> dpix s2 (x, y) \<le> dpix s0 (x - 1, y) + 1"
        using cand_relax(2)[OF c1 _ adj small] nbW by (simp add: s2_def s1_other)
    qed
    have bound: "dpix s2 (x, y) \<le> L1 (x, y) q"
      if q: "q \<in> On" "fst q \<le> x" "snd q \<le> y" for q
    proof -
      have qi: "in_image W H q" using sub q(1) .
      have ne: "q \<noteq> (x, y)" using off q(1) by auto
      show ?thesis
      proof (cases "snd q < y")
        case True
        then have y0: "y > 0" using qi by (simp add: in_image_def)
        have "fwd_ok W H On Own s0 (x, y - 1)"
          using y0 xy by (intro nb_fwd) (simp_all add: in_image_def before_def)
        then have "dpix s0 (x, y - 1) \<le> L1 (x, y - 1) q"
          using q True by (simp add: fwd_ok_def)
        also have "\<dots> = L1 (x, y) q - 1"
          using True q by (simp add: L1_def)
        finally show ?thesis using n1[OF y0] le2 by simp
      next
        case False
        then have "snd q = y" "fst q < x"
          using q ne by (cases q; auto)+
        then have x0: "x > 0" using qi by (simp add: in_image_def)
        have "fwd_ok W H On Own s0 (x - 1, y)"
          using x0 xy by (intro nb_fwd) (simp_all add: in_image_def before_def)
        then have "dpix s0 (x - 1, y) \<le> L1 (x - 1, y) q"
          using q \<open>snd q = y\<close> \<open>fst q < x\<close> by (simp add: fwd_ok_def)
        also have "\<dots> = L1 (x, y) q - 1"
          using \<open>snd q = y\<close> \<open>fst q < x\<close> by (simp add: L1_def)
        finally show ?thesis using n2[OF x0] by simp
      qed
    qed
    show ?thesis
      unfolding res fwd_ok_def using c2 bound by auto
  qed
qed


lemma fwd_pixel_step:
  assumes inv: "fwd_inv W H On Own x y s"
    and xy: "0 \<le> x" "x < W" "0 \<le> y" "y < H"
    and small: "W + H < 65535"
    and sub: "\<And>q. q \<in> On \<Longrightarrow> in_image W H q"
  shows "fwd_inv W H On Own (x + 1) y (fwd_pixel W H y x s)"
  unfolding fwd_inv_def
proof (intro allI impI)
  fix p assume p: "in_image W H p"
  show "if before (x + 1) y p then fwd_ok W H On Own (fwd_pixel W H y x s) p
        else stamped On Own (fwd_pixel W H y x s) p"
  proof (cases "p = (x, y)")
    case True
    then show ?thesis
      using fwd_pixel_ok[OF inv xy small sub] by (simp add: before_def)
  next
    case False
    then have b: "before (x + 1) y p = before x y p"
      by (cases p) (auto simp: before_def)
    have same: "fwd_ok W H On Own (fwd_pixel W H y x s) p = fwd_ok W H On Own s p"
      "stamped On Own (fwd_pixel W H y x s) p = stamped On Own s p"
      using False by (simp_all add: fwd_ok_def cand_def stamped_def fwd_pixel_other)
    show ?thesis
      using fwd_invD[OF inv p] by (simp add: b same)
  qed
qed

lemma bwd_pixel_other:
  assumes "p' \<noteq> (x, y)"
  shows "dpix (bwd_pixel W H y x s) p' = dpix s p'" "apix (bwd_pixel W H y x s) p' = apix s p'"
  using assms by (simp_all add: bwd_pixel_def Let_def relax_other)

lemma bwd_pixel_ok:
  assumes inv: "bwd_inv W H On Own x y s"
    and xy: "0 \<le> x" "x < W" "0 \<le> y" "y < H"
    and small: "W + H < 65535"
    and sub: "\<And>q. q \<in> On \<Longrightarrow> in_image W H q"
  shows "bwd_ok W H On Own (bwd_pixel W H y x s) (x, y)"
proof -
  have here: "in_image W H (x, y)" using xy by (simp add: in_image_def)
  have f0: "fwd_ok W H On Own s (x, y)"
    using bwd_invD(2)[OF inv here] by (simp add: after_def)
  then have c0: "cand W H On Own s (x, y)" by (simp add: fwd_ok_def)
  define s1 where "s1 = (if y + 1 < H then relax (x, y) (x, y + 1) s else s)"
  define s2 where "s2 = (if x + 1 < W then relax (x, y) (x + 1, y) s1 else s1)"
  have res: "bwd_pixel W H y x s = s2"
    by (simp add: bwd_pixel_def s1_def s2_def Let_def)
  have nb_bwd: "bwd_ok W H On Own s p'" if "in_image W H p'" "after x y p'" for p'
    using bwd_invD(1)[OF inv that] .
  have c1: "cand W H On Own s1 (x, y)" and le1: "dpix s1 (x, y) \<le> dpix s (x, y)"
    and n1: "y + 1 < H \<Longrightarrow> dpix s1 (x, y) \<le> dpix s (x, y + 1) + 1"
  proof -
    have nbS: "cand W H On Own s (x, y + 1)" if "y + 1 < H"
      using nb_bwd[of "(x, y + 1)"] that xy by (simp add: in_image_def after_def bwd_ok_def)
    have adj: "L1 (x, y) (x, y + 1) = 1" by (simp add: L1_def)
    show "cand W H On Own s1 (x, y)"
      using cand_relax(1)[OF c0 _ adj small] nbS c0 by (simp add: s1_def)
    show "dpix s1 (x, y) \<le> dpix s (x, y)"
      using cand_relax(3)[OF c0 _ adj small] nbS by (simp add: s1_def)
    show "y + 1 < H \<Longrightarrow> dpix s1 (x, y) \<le> dpix s (x, y + 1) + 1"
      using cand_relax(2)[OF c0 _ adj small] nbS by (simp add: s1_def)
  qed
  have s1_other: "dpix s1 p' = dpix s p'" "apix s1 p' = apix s p'" if "p' \<noteq> (x, y)" for p'
    using that by (simp_all add: s1_def relax_other)
  have c2: "cand W H On Own s2 (x, y)" and le2: "dpix s2 (x, y) \<le> dpix s1 (x, y)"
    and n2: "x + 1 < W \<Longrightarrow> dpix s2 (x, y) \<le> dpix s (x + 1, y) + 1"
  proof -
    have nbE0: "cand W H On Own s (x + 1, y)" if "x + 1 < W"
      using nb_bwd[of "(x + 1, y)"] that xy by (simp add: in_image_def after_def bwd_ok_def)
    have nbE: "cand W H On Own s1 (x + 1, y)" if "x + 1 < W"
      using nbE0[OF that] by (simp add: cand_def s1_other)
    have adj: "L1 (x, y) (x + 1, y) = 1" by (simp add: L1_def)
    show "cand W H On Own s2 (x, y)"
      using cand_relax(1)[OF c1 _ adj small] nbE c1 by (simp add: s2_def)
    show "dpix s2 (x, y) \<le> dpix s1 (x, y)"
      using cand_relax(3)[OF c1 _ adj small] nbE by (simp add: s2_def)
    show "x + 1 < W \<Longrightarrow> dpix s2 (x, y) \<le> dpix s (x + 1, y) + 1"
      using cand_relax(2)[OF c1 _ adj small] nbE by (simp add: s2_def s1_other)
  qed
  have bound: "dpix s2 (x, y) \<le> L1 (x, y) q" if q: "q \<in> On" for q
  proof -
    have qi: "in_image W H q" using sub q .
    consider (south) "snd q > y" | (east) "snd q \<le> y" "fst q > x"
      | (nw) "snd q \<le> y" "fst q \<le> x"
      by linarith
    then show ?thesis
    proof cases
      case south
      then have yH: "y + 1 < H" using qi by (simp add: in_image_def)
      have "bwd_ok W H On Own s (x, y + 1)"
        using yH xy by (intro nb_bwd) (simp_all add: in_image_def after_def)
      then have "dpix s (x, y + 1) \<le> L1 (x, y + 1) q"
        using q by (simp add: bwd_ok_def)
      also have "\<dots> = L1 (x, y) q - 1"
        using south by (simp add: L1_def)
      finally show ?thesis using n1[OF yH] le2 by simp
    next
      case east
      then have xW: "x + 1 < W" using qi by (simp add: in_image_def)
      have "bwd_ok W H On Own s (x + 1, y)"
        using xW xy by (intro nb_bwd) (simp_all add: in_image_def after_def)
      then have "dpix s (x + 1, y) \<le> L1 (x + 1, y) q"
        using q by (simp add: bwd_ok_def)
      also have "\<dots> = L1 (x, y) q - 1"
        using east by (simp add: L1_def)
      finally show ?thesis using n2[OF xW] by simp
    next
      case nw
      then have "dpix s (x, y) \<le> L1 (x, y) q"
        using f0 q by (simp add: fwd_ok_def)
      then show ?thesis using le1 le2 by simp
    qed
  qed
  show ?thesis
    unfolding res bwd_ok_def using c2 bound by auto
qed

lemma bwd_pixel_step:
  assumes inv: "bwd_inv W H On Own x y s"
    and xy: "0 \<le> x" "x < W" "0 \<le> y" "y < H"
    and small: "W + H < 65535"
    and sub: "\<And>q. q \<in> On \<Longrightarrow> in_image W H q"
  shows "bwd_inv W H On Own (x - 1) y (bwd_pixel W H y x s)"
  unfolding bwd_inv_def
proof (intro allI impI)
  fix p assume p: "in_image W H p"
  show "if after (x - 1) y p then bwd_ok W H On Own (bwd_pixel W H y x s) p
        else fwd_ok W H On Own (bwd_pixel W H y x s) p"
  proof (cases "p = (x, y)")
    case True
    then show ?thesis
      using bwd_pixel_ok[OF inv xy small sub] by (simp add: after_def)
  next
    case False
    then have b: "after (x - 1) y p = after x y p"
      by (cases p) (auto simp: after_def)
    have same: "fwd_ok W H On Own (bwd_pixel W H y x s) p = fwd_ok W H On Own s p"
      "bwd_ok W H On Own (bwd_pixel W H y x s) p = bwd_ok W H On Own s p"
      using False by (simp_all add: fwd_ok_def bwd_ok_def cand_def bwd_pixel_other)
    show ?thesis
      using bwd_invD[OF inv p] by (simp add: b same)
  qed
qed

text \<open>Loops over integer ranges with an invariant.\<close>

lemma fold_upto_inv_aux:
  assumes step: "\<And>k s. i \<le> k \<Longrightarrow> k \<le> j \<Longrightarrow> P k s \<Longrightarrow> P (k + 1) (f k s)"
  shows "i \<le> i' \<Longrightarrow> P i' s \<Longrightarrow> i' \<le> j + 1 \<Longrightarrow> P (j + 1) (fold f [i'..j] s)"
proof (induction "nat (j + 1 - i')" arbitrary: i' s)
  case 0
  then have "i' = j + 1" by simp
  with 0 show ?case by simp
next
  case (Suc n)
  then have ij: "i' \<le> j" by simp
  have l: "[i'..j] = i' # [i' + 1..j]" using ij by (simp add: upto_rec1)
  have 1: "P (i' + 1) (f i' s)"
    by (rule step) (use ij Suc.prems in simp_all)
  have 2: "n = nat (j + 1 - (i' + 1))" using Suc.hyps(2) by simp
  have "P (j + 1) (fold f [i' + 1..j] (f i' s))"
    by (rule Suc.hyps(1)[OF 2 _ 1]) (use ij Suc.prems in simp_all)
  then show ?case by (simp add: l)
qed

lemma fold_upto_inv:
  assumes "\<And>k s. i \<le> k \<Longrightarrow> k \<le> j \<Longrightarrow> P k s \<Longrightarrow> P (k + 1) (f k s)"
    and "P i s" "i \<le> j + 1"
  shows "P (j + 1) (fold f [i..j] s)"
  using fold_upto_inv_aux[of i j P f i s] assms by simp

lemma fold_rev_upto_inv_aux:
  assumes step: "\<And>k s. i \<le> k \<Longrightarrow> k \<le> j \<Longrightarrow> P k s \<Longrightarrow> P (k - 1) (f k s)"
  shows "j' \<le> j \<Longrightarrow> P j' s \<Longrightarrow> i \<le> j' + 1 \<Longrightarrow> P (i - 1) (fold f (rev [i..j']) s)"
proof (induction "nat (j' + 1 - i)" arbitrary: j' s)
  case 0
  then have "j' = i - 1" by simp
  with 0 show ?case by simp
next
  case (Suc n)
  then have ij: "i \<le> j'" by simp
  have l: "[i..j'] = [i..j' - 1] @ [j']" using ij by (simp add: upto_rec2)
  have 1: "P (j' - 1) (f j' s)"
    by (rule step) (use ij Suc.prems in simp_all)
  have 2: "n = nat (j' - 1 + 1 - i)" using Suc.hyps(2) by simp
  have "P (i - 1) (fold f (rev [i..j' - 1]) (f j' s))"
    by (rule Suc.hyps(1)[OF 2 _ 1]) (use ij Suc.prems in simp_all)
  then show ?case by (simp add: l)
qed

lemma fold_rev_upto_inv:
  assumes "\<And>k s. i \<le> k \<Longrightarrow> k \<le> j \<Longrightarrow> P k s \<Longrightarrow> P (k - 1) (f k s)"
    and "P j s" "i \<le> j + 1"
  shows "P (i - 1) (fold f (rev [i..j]) s)"
  using fold_rev_upto_inv_aux[of i j P f j s] assms by simp

text \<open>The two sweeps.\<close>

lemma fwd_inv_wrap:
  assumes inv: "fwd_inv W H On Own W y s"
  shows "fwd_inv W H On Own 0 (y + 1) s"
  unfolding fwd_inv_def
proof (intro allI impI)
  fix p assume p: "in_image W H p"
  then have "before 0 (y + 1) p = before W y p"
    by (cases p) (auto simp: before_def in_image_def)
  then show "if before 0 (y + 1) p then fwd_ok W H On Own s p else stamped On Own s p"
    using fwd_invD[OF inv p] by simp
qed

lemma bwd_inv_wrap:
  assumes inv: "bwd_inv W H On Own (- 1) y s"
  shows "bwd_inv W H On Own (W - 1) (y - 1) s"
  unfolding bwd_inv_def
proof (intro allI impI)
  fix p assume p: "in_image W H p"
  then have "after (W - 1) (y - 1) p = after (- 1) y p"
    by (cases p) (auto simp: after_def in_image_def)
  then show "if after (W - 1) (y - 1) p then bwd_ok W H On Own s p else fwd_ok W H On Own s p"
    using bwd_invD[OF inv p] by simp
qed

lemma fwd_sweep:
  assumes start: "fwd_inv W H On Own 0 0 s"
    and dims: "0 \<le> W" "0 \<le> H" and small: "W + H < 65535"
    and sub: "\<And>q. q \<in> On \<Longrightarrow> in_image W H q"
  shows "fwd_inv W H On Own 0 H
           (fold (\<lambda>y. fold (fwd_pixel W H y) [0..W - 1]) [0..H - 1] s)"
proof -
  have row: "fwd_inv W H On Own 0 (y + 1) (fold (fwd_pixel W H y) [0..W - 1] s)"
    if "0 \<le> y" "y \<le> H - 1" "fwd_inv W H On Own 0 y s" for y s
  proof -
    have "fwd_inv W H On Own (W - 1 + 1) y (fold (fwd_pixel W H y) [0..W - 1] s)"
      by (rule fold_upto_inv[where P = "\<lambda>x s. fwd_inv W H On Own x y s"])
        (use that dims small sub in \<open>auto intro: fwd_pixel_step\<close>)
    then show ?thesis by (simp add: fwd_inv_wrap)
  qed
  have "fwd_inv W H On Own 0 (H - 1 + 1)
          (fold (\<lambda>y. fold (fwd_pixel W H y) [0..W - 1]) [0..H - 1] s)"
    by (rule fold_upto_inv[where P = "\<lambda>y s. fwd_inv W H On Own 0 y s"])
      (use start dims row in auto)
  then show ?thesis by simp
qed

lemma fwd_inv_done:
  assumes inv: "fwd_inv W H On Own 0 H s"
  shows "bwd_inv W H On Own (W - 1) (H - 1) s"
  unfolding bwd_inv_def
proof (intro allI impI)
  fix p assume p: "in_image W H p"
  then have "before 0 H p" "\<not> after (W - 1) (H - 1) p"
    by (cases p; auto simp: before_def after_def in_image_def)+
  then show "if after (W - 1) (H - 1) p then bwd_ok W H On Own s p else fwd_ok W H On Own s p"
    using fwd_invD(1)[OF inv p] by simp
qed

lemma bwd_sweep:
  assumes start: "bwd_inv W H On Own (W - 1) (H - 1) s"
    and dims: "0 \<le> W" "0 \<le> H" and small: "W + H < 65535"
    and sub: "\<And>q. q \<in> On \<Longrightarrow> in_image W H q"
  shows "bwd_inv W H On Own (W - 1) (- 1)
           (fold (\<lambda>y. fold (bwd_pixel W H y) (rev [0..W - 1])) (rev [0..H - 1]) s)"
proof -
  have row: "bwd_inv W H On Own (W - 1) (y - 1) (fold (bwd_pixel W H y) (rev [0..W - 1]) s)"
    if "0 \<le> y" "y \<le> H - 1" "bwd_inv W H On Own (W - 1) y s" for y s
  proof -
    have "bwd_inv W H On Own (0 - 1) y (fold (bwd_pixel W H y) (rev [0..W - 1]) s)"
      by (rule fold_rev_upto_inv[where P = "\<lambda>x s. bwd_inv W H On Own x y s"])
        (use that dims small sub in \<open>auto intro: bwd_pixel_step\<close>)
    then show ?thesis by (simp add: bwd_inv_wrap)
  qed
  have "bwd_inv W H On Own (W - 1) (0 - 1)
          (fold (\<lambda>y. fold (bwd_pixel W H y) (rev [0..W - 1])) (rev [0..H - 1]) s)"
    by (rule fold_rev_upto_inv[where P = "\<lambda>y s. bwd_inv W H On Own (W - 1) y s"])
      (use start dims row in auto)
  then show ?thesis by simp
qed

lemma bwd_inv_done:
  assumes "bwd_inv W H On Own (W - 1) (- 1) s" "in_image W H p"
  shows "bwd_ok W H On Own s p"
  using bwd_invD(1)[OF assms] assms(2) by (simp add: after_def in_image_def)


text \<open>Stamping.\<close>

lemma fold_set_pix_frame:
  "img_x0 (fold (\<lambda>x im2. set_pix im2 (g x) v) xs im) = img_x0 im \<and>
   img_y0 (fold (\<lambda>x im2. set_pix im2 (g x) v) xs im) = img_y0 im \<and>
   img_w (fold (\<lambda>x im2. set_pix im2 (g x) v) xs im) = img_w im \<and>
   img_h (fold (\<lambda>x im2. set_pix im2 (g x) v) xs im) = img_h im"
  by (induction xs arbitrary: im) (simp_all add: set_pix_def)

lemma fold_set_pix_pix:
  "img_pix (fold (\<lambda>x im2. set_pix im2 (g x) v) xs im) p =
     (if \<exists>x\<in>set xs. p = g x then v else img_pix im p)"
  by (induction xs arbitrary: im) (auto simp: set_pix_def)

lemma stamp_spans_frame:
  "img_x0 (fold (\<lambda>s im1. fold (\<lambda>x im2. set_pix im2 (x - ox, sp_y s - oy) v)
                      [sp_x0 s..sp_x1 s] im1) spans im) = img_x0 im \<and>
   img_y0 (fold (\<lambda>s im1. fold (\<lambda>x im2. set_pix im2 (x - ox, sp_y s - oy) v)
                      [sp_x0 s..sp_x1 s] im1) spans im) = img_y0 im \<and>
   img_w (fold (\<lambda>s im1. fold (\<lambda>x im2. set_pix im2 (x - ox, sp_y s - oy) v)
                      [sp_x0 s..sp_x1 s] im1) spans im) = img_w im \<and>
   img_h (fold (\<lambda>s im1. fold (\<lambda>x im2. set_pix im2 (x - ox, sp_y s - oy) v)
                      [sp_x0 s..sp_x1 s] im1) spans im) = img_h im"
  by (induction spans arbitrary: im) (simp_all add: fold_set_pix_frame)

lemma stamp_spans_pix:
  "img_pix (fold (\<lambda>s im1. fold (\<lambda>x im2. set_pix im2 (x - ox, sp_y s - oy) v)
                      [sp_x0 s..sp_x1 s] im1) spans im) p =
     (if foot_contains spans (fst p + ox) (snd p + oy) then v else img_pix im p)"
proof (induction spans arbitrary: im)
  case Nil
  show ?case by (simp add: foot_contains_def)
next
  case (Cons s spans)
  have "(\<exists>x\<in>set [sp_x0 s..sp_x1 s]. p = (x - ox, sp_y s - oy))
          = span_contains s (fst p + ox) (snd p + oy)"
  proof (cases p)
    case (Pair a b)
    have "(\<exists>x\<in>{sp_x0 s..sp_x1 s}. a = x - ox) \<longleftrightarrow> sp_x0 s \<le> a + ox \<and> a + ox \<le> sp_x1 s"
      by (auto intro: bexI[of _ "a + ox"])
    then show ?thesis
      using Pair by (auto simp: span_contains_def)
  qed
  then show ?case
    by (simp add: Cons.IH fold_set_pix_pix foot_contains_def)
qed

lemma setImage_frame:
  "img_x0 (setImage spans im v) = img_x0 im" "img_y0 (setImage spans im v) = img_y0 im"
  "img_w (setImage spans im v) = img_w im" "img_h (setImage spans im v) = img_h im"
  unfolding setImage_def using stamp_spans_frame[of "img_x0 im" "img_y0 im" v spans im]
  by simp_all

lemma setImage_pix:
  "img_pix (setImage spans im v) p =
     (if foot_contains spans (fst p + img_x0 im) (snd p + img_y0 im) then v else img_pix im p)"
  unfolding setImage_def by (rule stamp_spans_pix)

lemma stamp_foots_frame:
  "img_x0 (fst (stamp_foots i foots (a, d))) = img_x0 a \<and>
   img_y0 (fst (stamp_foots i foots (a, d))) = img_y0 a \<and>
   img_x0 (snd (stamp_foots i foots (a, d))) = img_x0 d \<and>
   img_y0 (snd (stamp_foots i foots (a, d))) = img_y0 d \<and>
   img_w (snd (stamp_foots i foots (a, d))) = img_w d \<and>
   img_h (snd (stamp_foots i foots (a, d))) = img_h d"
  by (induction foots arbitrary: i a d) (simp_all add: setImage_frame)

lemma stamp_foots_pix:
  assumes "img_x0 a = ox" "img_y0 a = oy" "img_x0 d = ox" "img_y0 d = oy"
  shows "(if \<exists>k<length foots. foot_contains (foots ! k) (fst p + ox) (snd p + oy)
          then dpix (stamp_foots i foots (a, d)) p = 1 \<and>
               (\<exists>k<length foots. foot_contains (foots ! k) (fst p + ox) (snd p + oy) \<and>
                   apix (stamp_foots i foots (a, d)) p = u16 (i + int k))
          else dpix (stamp_foots i foots (a, d)) p = img_pix d p \<and>
               apix (stamp_foots i foots (a, d)) p = img_pix a p)"
  using assms
proof (induction foots arbitrary: i a d)
  case Nil
  show ?case by (simp add: dpix_def apix_def)
next
  case (Cons f foots)
  let ?a = "setImage f a (u16 i)" and ?d = "setImage f d (u16 1)"
  let ?r = "stamp_foots (i + 1) foots (?a, ?d)"
  let ?cov = "\<lambda>g. foot_contains g (fst p + ox) (snd p + oy)"
  have IH: "(if \<exists>k<length foots. ?cov (foots ! k)
          then dpix ?r p = 1 \<and> (\<exists>k<length foots. ?cov (foots ! k) \<and> apix ?r p = u16 (i + 1 + int k))
          else dpix ?r p = img_pix ?d p \<and> apix ?r p = img_pix ?a p)"
    by (rule Cons.IH) (simp_all add: setImage_frame Cons.prems)
  have res: "stamp_foots i (f # foots) (a, d) = ?r" by simp
  show ?case
  proof (cases "\<exists>k<length foots. ?cov (foots ! k)")
    case True
    with IH obtain k where k: "k < length foots" "?cov (foots ! k)" "apix ?r p = u16 (i + 1 + int k)"
      and d1: "dpix ?r p = 1" by auto
    have "Suc k < length (f # foots)" "?cov ((f # foots) ! Suc k)"
      "apix ?r p = u16 (i + int (Suc k))"
      using k by (simp_all add: algebra_simps)
    then have "\<exists>k<length (f # foots). ?cov ((f # foots) ! k) \<and> apix ?r p = u16 (i + int k)"
      by blast
    then show ?thesis
      unfolding res using d1 by auto
  next
    case False
    with IH have r: "dpix ?r p = img_pix ?d p" "apix ?r p = img_pix ?a p" by auto
    show ?thesis
    proof (cases "?cov f")
      case True
      have "0 < length (f # foots)" "?cov ((f # foots) ! 0)" "apix ?r p = u16 (i + int 0)"
        using True r by (simp_all add: setImage_pix Cons.prems)
      then have "\<exists>k<length (f # foots). ?cov ((f # foots) ! k) \<and> apix ?r p = u16 (i + int k)"
        by blast
      moreover have "dpix ?r p = 1"
        using True r by (simp add: setImage_pix Cons.prems u16_def)
      ultimately show ?thesis unfolding res by auto
    next
      case nf: False
      have none: "\<not> (\<exists>k<length (f # foots). ?cov ((f # foots) ! k))"
        using False nf by (auto simp: nth_Cons split: nat.splits)
      have r': "dpix ?r p = img_pix d p" "apix ?r p = img_pix a p"
        using r nf by (simp_all add: setImage_pix Cons.prems)
      show ?thesis
        unfolding res by (simp only: none if_False r' simp_thms)
    qed
  qed
qed


lemma nearestFootprint_frame:
  "img_x0 (fst (nearestFootprint foots argmin dst)) = img_x0 argmin"
  "img_y0 (fst (nearestFootprint foots argmin dst)) = img_y0 argmin"
proof -
  have relax: "img_x0 (fst (relax p q s)) = img_x0 (fst s) \<and> img_y0 (fst (relax p q s)) = img_y0 (fst s)"
    for p q s
    by (cases s) (simp add: relax_def Let_def set_pix_def)
  have fp: "img_x0 (fst (fwd_pixel W H y x s)) = img_x0 (fst s) \<and>
            img_y0 (fst (fwd_pixel W H y x s)) = img_y0 (fst s)" for W H y x s
    by (cases s) (simp add: fwd_pixel_def Let_def relax set_pix_def)
  have bp: "img_x0 (fst (bwd_pixel W H y x s)) = img_x0 (fst s) \<and>
            img_y0 (fst (bwd_pixel W H y x s)) = img_y0 (fst s)" for W H y x s
    by (simp add: bwd_pixel_def Let_def relax)
  have row: "img_x0 (fst (fold f xs s)) = img_x0 (fst s) \<and> img_y0 (fst (fold f xs s)) = img_y0 (fst s)"
    if "\<And>x s. img_x0 (fst (f x s)) = img_x0 (fst s) \<and> img_y0 (fst (f x s)) = img_y0 (fst s)"
    for f :: "int \<Rightarrow> u16_pair \<Rightarrow> u16_pair" and xs s
    using that by (induction xs arbitrary: s) simp_all
  have f1: "img_x0 (fst (fold (\<lambda>y. fold (fwd_pixel W H y) xs) ys s)) = img_x0 (fst s) \<and>
        img_y0 (fst (fold (\<lambda>y. fold (fwd_pixel W H y) xs) ys s)) = img_y0 (fst s)" for W H xs ys s
    by (rule row) (rule row, rule fp)
  have f2: "img_x0 (fst (fold (\<lambda>y. fold (bwd_pixel W H y) xs) ys s)) = img_x0 (fst s) \<and>
        img_y0 (fst (fold (\<lambda>y. fold (bwd_pixel W H y) xs) ys s)) = img_y0 (fst s)" for W H xs ys s
    by (rule row) (rule row, rule bp)
  show "img_x0 (fst (nearestFootprint foots argmin dst)) = img_x0 argmin"
    "img_y0 (fst (nearestFootprint foots argmin dst)) = img_y0 argmin"
    unfolding nearestFootprint_def Let_def
    by (simp_all add: f1 f2 stamp_foots_frame)
qed

lemma nearestFootprint_bwd_ok:
  assumes orig: "img_x0 argmin = img_x0 dst" "img_y0 argmin = img_y0 dst"
    and small: "img_w dst + img_h dst < 65535"
    and p: "in_image (img_w dst) (img_h dst) p"
  shows "bwd_ok (img_w dst) (img_h dst) (on_pixels foots dst) (owns foots dst)
           (nearestFootprint foots argmin dst) p"
proof -
  let ?W = "img_w dst" and ?H = "img_h dst"
  let ?On = "on_pixels foots dst" and ?Own = "owns foots dst"
  let ?a0 = "argmin\<lparr>img_pix := (\<lambda>_. 0)\<rparr>" and ?d0 = "dst\<lparr>img_pix := (\<lambda>_. 0)\<rparr>"
  let ?s1 = "stamp_foots 0 foots (?a0, ?d0)"
  have dims: "0 \<le> ?W" "0 \<le> ?H" using p by (auto simp: in_image_def)
  have sub: "\<And>q. q \<in> ?On \<Longrightarrow> in_image ?W ?H q" by (simp add: on_pixels_def)
  have st: "stamped ?On ?Own ?s1 q" if "in_image ?W ?H q" for q
    using stamp_foots_pix[of ?a0 "img_x0 dst" "img_y0 dst" ?d0 foots q 0] that
    by (auto simp: stamped_def on_pixels_def owns_def orig split: if_splits)
  have "fwd_inv ?W ?H ?On ?Own 0 0 ?s1"
    unfolding fwd_inv_def using st by (auto simp: before_def in_image_def)
  from fwd_sweep[OF this dims small sub]
  have "bwd_inv ?W ?H ?On ?Own (?W - 1) (?H - 1)
          (fold (\<lambda>y. fold (fwd_pixel ?W ?H y) [0..?W - 1]) [0..?H - 1] ?s1)"
    by (rule fwd_inv_done)
  from bwd_sweep[OF this dims small sub]
  have "bwd_ok ?W ?H ?On ?Own
          (fold (\<lambda>y. fold (bwd_pixel ?W ?H y) (rev [0..?W - 1])) (rev [0..?H - 1])
             (fold (\<lambda>y. fold (fwd_pixel ?W ?H y) [0..?W - 1]) [0..?H - 1] ?s1)) p"
    using p by (rule bwd_inv_done)
  then show ?thesis
    by (simp add: nearestFootprint_def Let_def)
qed


lemma nearest_lower_bound:
  assumes orig: "img_x0 argmin = img_x0 dst" "img_y0 argmin = img_y0 dst"
    and small: "img_w dst + img_h dst < 65535"
    and inside: "\<forall>f\<in>set foots. \<forall>x y. foot_contains f x y \<longrightarrow>
        in_image (img_w dst) (img_h dst) (x - img_x0 dst, y - img_y0 dst)"
    and p: "in_image (img_w dst) (img_h dst) p"
    and f: "f \<in> set foots" "foot_contains f x y"
  shows "img_pix (snd (nearestFootprint foots argmin dst)) p
           \<le> \<bar>fst p + img_x0 dst - x\<bar> + \<bar>snd p + img_y0 dst - y\<bar>"
proof -
  let ?q = "(x - img_x0 dst, y - img_y0 dst)"
  obtain k where k: "k < length foots" "foots ! k = f"
    using f(1) by (auto simp: in_set_conv_nth)
  have "?q \<in> on_pixels foots dst"
    using inside f k by (auto simp: on_pixels_def)
  then have "dpix (nearestFootprint foots argmin dst) p \<le> L1 p ?q"
    using nearestFootprint_bwd_ok[OF orig small p, of foots] by (simp add: bwd_ok_def)
  also have "L1 p ?q = \<bar>fst p + img_x0 dst - x\<bar> + \<bar>snd p + img_y0 dst - y\<bar>"
    by (simp add: L1_def algebra_simps)
  finally show ?thesis by (simp add: dpix_def)
qed

lemma nearest_attained:
  assumes orig: "img_x0 argmin = img_x0 dst" "img_y0 argmin = img_y0 dst"
    and small: "img_w dst + img_h dst < 65535"
    and inside: "\<forall>f\<in>set foots. \<forall>x y. foot_contains f x y \<longrightarrow>
        in_image (img_w dst) (img_h dst) (x - img_x0 dst, y - img_y0 dst)"
    and p: "in_image (img_w dst) (img_h dst) p"
    and nonempty: "\<exists>f\<in>set foots. \<exists>x y. foot_contains f x y"
  shows "\<exists>k<length foots. \<exists>x y. foot_contains (foots ! k) x y \<and>
           img_pix (snd (nearestFootprint foots argmin dst)) p
             = \<bar>fst p + img_x0 dst - x\<bar> + \<bar>snd p + img_y0 dst - y\<bar> \<and>
           img_pix (fst (nearestFootprint foots argmin dst)) p = u16 (int k)"
proof -
  let ?r = "nearestFootprint foots argmin dst"
  let ?W = "img_w dst" and ?H = "img_h dst"
  note ok = nearestFootprint_bwd_ok[OF orig small p, of foots]
  obtain f x y where f: "f \<in> set foots" "foot_contains f x y"
    using nonempty by blast
  have "in_image ?W ?H (x - img_x0 dst, y - img_y0 dst)" using inside f by blast
  then have "\<bar>fst p + img_x0 dst - x\<bar> + \<bar>snd p + img_y0 dst - y\<bar> < ?W + ?H"
    using p by (auto simp: in_image_def)
  then have "dpix ?r p < ?W + ?H"
    using nearest_lower_bound[OF orig small inside p f] by (simp add: dpix_def)
  then obtain q where q: "q \<in> on_pixels foots dst" "L1 p q \<le> dpix ?r p"
      "owns foots dst (apix ?r p) q"
    using ok by (auto simp: bwd_ok_def cand_def)
  from q(3) obtain k where k: "k < length foots"
      "foot_contains (foots ! k) (fst q + img_x0 dst) (snd q + img_y0 dst)"
      "apix ?r p = u16 (int k)"
    by (auto simp: owns_def)
  have "dpix ?r p \<le> L1 p q" using ok q(1) by (simp add: bwd_ok_def)
  with q(2) have "dpix ?r p = L1 p q" by simp
  also have "L1 p q = \<bar>fst p + img_x0 dst - (fst q + img_x0 dst)\<bar>
                     + \<bar>snd p + img_y0 dst - (snd q + img_y0 dst)\<bar>"
    by (simp add: L1_def)
  finally show ?thesis
    using k unfolding dpix_def apix_def by blast
qed

lemma nearest_all_empty:
  assumes orig: "img_x0 argmin = img_x0 dst" "img_y0 argmin = img_y0 dst"
    and small: "img_w dst + img_h dst < 65535"
    and p: "in_image (img_w dst) (img_h dst) p"
    and empty: "\<not> (\<exists>f\<in>set foots. \<exists>x y. foot_contains f x y)"
  shows "img_pix (fst (nearestFootprint foots argmin dst)) p = nil"
proof -
  let ?r = "nearestFootprint foots argmin dst"
  note ok = nearestFootprint_bwd_ok[OF orig small p, of foots]
  have "on_pixels foots dst = {}"
    using empty by (auto simp: on_pixels_def)
  then have "dpix ?r p = img_w dst + img_h dst"
    using ok by (auto simp: bwd_ok_def cand_def)
  then show ?thesis
    using ok by (simp add: bwd_ok_def cand_def apix_def)
qed

lemma fwd_pixel_on:
  assumes "dpix s (x, y) = 1"
  shows "dpix (fwd_pixel W H y x s) (x, y) = 0" "apix (fwd_pixel W H y x s) (x, y) = apix s (x, y)"
  using assms by (cases s; simp add: fwd_pixel_def dpix_def apix_def set_pix_def)+

lemma keeps_fwd_step:
  assumes "keeps p l x y s"
  shows "keeps p l (x + 1) y (fwd_pixel W H y x s)"
proof (cases "p = (x, y)")
  case True
  then have "dpix s (x, y) = 1" "apix s (x, y) = l"
    using assms by (simp_all add: keeps_def before_def)
  then show ?thesis
    using True fwd_pixel_on[of s x y W H] by (simp add: keeps_def before_def)
next
  case False
  then have "before (x + 1) y p = before x y p"
    by (cases p) (auto simp: before_def)
  then show ?thesis
    using assms False by (simp add: keeps_def fwd_pixel_other)
qed

lemma keeps_fwd_sweep:
  assumes start: "keeps p l 0 0 s" and p: "in_image W H p"
  shows "keeps p l 0 H (fold (\<lambda>y. fold (fwd_pixel W H y) [0..W - 1]) [0..H - 1] s)"
proof -
  have dims: "0 \<le> W" "0 \<le> H" using p by (auto simp: in_image_def)
  have wrap: "keeps p l 0 (y + 1) s" if "keeps p l W y s" for y s
  proof -
    have "before 0 (y + 1) p = before W y p"
      using p by (cases p) (auto simp: before_def in_image_def)
    then show ?thesis using that by (simp add: keeps_def)
  qed
  have row: "keeps p l 0 (y + 1) (fold (fwd_pixel W H y) [0..W - 1] s)"
    if "keeps p l 0 y s" for y s
  proof -
    have "keeps p l (W - 1 + 1) y (fold (fwd_pixel W H y) [0..W - 1] s)"
      by (rule fold_upto_inv[where P = "\<lambda>x s. keeps p l x y s"])
        (use that dims in \<open>auto intro: keeps_fwd_step\<close>)
    then show ?thesis by (simp add: wrap)
  qed
  have "keeps p l 0 (H - 1 + 1)
          (fold (\<lambda>y. fold (fwd_pixel W H y) [0..W - 1]) [0..H - 1] s)"
    by (rule fold_upto_inv[where P = "\<lambda>y s. keeps p l 0 y s"])
      (use start dims row in auto)
  then show ?thesis by simp
qed

lemma fold_invariant:
  assumes "\<And>a s. P s \<Longrightarrow> P (f a s)" "P s"
  shows "P (fold f xs s)"
  using assms by (induction xs arbitrary: s) simp_all

lemma u16_nonneg: "0 \<le> u16 n"
  by (simp add: u16_def)

lemma zero_bwd_step:
  assumes "dpix s p = 0 \<and> apix s p = l"
  shows "dpix (bwd_pixel W H y x s) p = 0 \<and> apix (bwd_pixel W H y x s) p = l"
proof (cases "p = (x, y)")
  case False
  then show ?thesis using assms by (simp add: bwd_pixel_other)
next
  case True
  have r: "dpix (relax p n t) p = 0 \<and> apix (relax p n t) p = l"
    if "dpix t p = 0 \<and> apix t p = l" for n t
    using that u16_nonneg[of "dpix t n + 1"] by (simp add: relax_self)
  define s1 where "s1 = (if y + 1 < H then relax p (x, y + 1) s else s)"
  have 1: "dpix s1 p = 0 \<and> apix s1 p = l"
    unfolding s1_def using assms r by simp
  have "bwd_pixel W H y x s = (if x + 1 < W then relax p (x + 1, y) s1 else s1)"
    by (simp add: bwd_pixel_def Let_def True s1_def)
  then show ?thesis using 1 r by simp
qed

lemma zero_bwd_sweep:
  assumes "dpix s p = 0 \<and> apix s p = l"
  shows "dpix (fold (\<lambda>y. fold (bwd_pixel W H y) xs) ys s) p = 0 \<and>
         apix (fold (\<lambda>y. fold (bwd_pixel W H y) xs) ys s) p = l"
  by (rule fold_invariant[where P = "\<lambda>s. dpix s p = 0 \<and> apix s p = l"],
      rule fold_invariant[where P = "\<lambda>s. dpix s p = 0 \<and> apix s p = l"],
      rule zero_bwd_step) (use assms in auto)

lemma stamp_foots_last:
  assumes "img_x0 a = ox" "img_y0 a = oy" "img_x0 d = ox" "img_y0 d = oy"
    and "k < length foots" "foot_contains (foots ! k) (fst p + ox) (snd p + oy)"
    and "\<forall>j<length foots. k < j \<longrightarrow> \<not> foot_contains (foots ! j) (fst p + ox) (snd p + oy)"
  shows "dpix (stamp_foots i foots (a, d)) p = 1 \<and>
         apix (stamp_foots i foots (a, d)) p = u16 (i + int k)"
  using assms
proof (induction foots arbitrary: i a d k)
  case Nil
  then show ?case by simp
next
  case (Cons f foots)
  let ?a = "setImage f a (u16 i)" and ?d = "setImage f d (u16 1)"
  let ?cov = "\<lambda>g. foot_contains g (fst p + ox) (snd p + oy)"
  have fr: "img_x0 ?a = ox" "img_y0 ?a = oy" "img_x0 ?d = ox" "img_y0 ?d = oy"
    by (simp_all add: setImage_frame Cons.prems)
  show ?case
  proof (cases k)
    case 0
    have none: "\<not> (\<exists>j<length foots. ?cov (foots ! j))"
      using Cons.prems(7) 0 by auto
    have "dpix (stamp_foots (i + 1) foots (?a, ?d)) p = img_pix ?d p \<and>
          apix (stamp_foots (i + 1) foots (?a, ?d)) p = img_pix ?a p"
      using stamp_foots_pix[OF fr, of foots p "i + 1"] none by simp
    moreover have "?cov f" using Cons.prems(6) 0 by simp
    ultimately show ?thesis
      using 0 by (simp add: setImage_pix Cons.prems u16_def)
  next
    case (Suc k')
    have "dpix (stamp_foots (i + 1) foots (?a, ?d)) p = 1 \<and>
          apix (stamp_foots (i + 1) foots (?a, ?d)) p = u16 (i + 1 + int k')"
    proof (rule Cons.IH[OF fr])
      show "k' < length foots" using Cons.prems(5) Suc by simp
      show "?cov (foots ! k')" using Cons.prems(6) Suc by simp
      show "\<forall>j<length foots. k' < j \<longrightarrow> \<not> ?cov (foots ! j)"
        using Cons.prems(7) Suc by auto
    qed
    then show ?thesis using Suc by (simp add: algebra_simps)
  qed
qed

lemma nearest_covered:
  assumes orig: "img_x0 argmin = img_x0 dst" "img_y0 argmin = img_y0 dst"
    and p: "in_image (img_w dst) (img_h dst) p"
    and k: "k < length foots" "foot_contains (foots ! k) (fst p + img_x0 dst) (snd p + img_y0 dst)"
    and last: "\<forall>j<length foots. k < j \<longrightarrow>
                 \<not> foot_contains (foots ! j) (fst p + img_x0 dst) (snd p + img_y0 dst)"
  shows "img_pix (fst (nearestFootprint foots argmin dst)) p = u16 (int k)"
proof -
  let ?W = "img_w dst" and ?H = "img_h dst"
  let ?a0 = "argmin\<lparr>img_pix := (\<lambda>_. 0)\<rparr>" and ?d0 = "dst\<lparr>img_pix := (\<lambda>_. 0)\<rparr>"
  let ?s1 = "stamp_foots 0 foots (?a0, ?d0)"
  let ?s2 = "fold (\<lambda>y. fold (fwd_pixel ?W ?H y) [0..?W - 1]) [0..?H - 1] ?s1"
  have "dpix ?s1 p = 1 \<and> apix ?s1 p = u16 (0 + int k)"
    by (rule stamp_foots_last[where ox = "img_x0 dst" and oy = "img_y0 dst"])
      (use orig k last in simp_all)
  moreover have "\<not> before 0 0 p" using p by (auto simp: before_def in_image_def)
  ultimately have "keeps p (u16 (int k)) 0 0 ?s1" by (simp add: keeps_def)
  then have "keeps p (u16 (int k)) 0 ?H ?s2" using p by (rule keeps_fwd_sweep)
  moreover have "before 0 ?H p" using p by (auto simp: before_def in_image_def)
  ultimately have "dpix ?s2 p = 0 \<and> apix ?s2 p = u16 (int k)" by (simp add: keeps_def)
  then have "apix (fold (\<lambda>y. fold (bwd_pixel ?W ?H y) (rev [0..?W - 1])) (rev [0..?H - 1]) ?s2) p
               = u16 (int k)"
    using zero_bwd_sweep by blast
  then show ?thesis by (simp add: nearestFootprint_def Let_def apix_def)
qed

text \<open>
  C4 (amended). Let the label and distance images share the origin, let width plus height
  stay below 65535 (distances are 16-bit), let there be at most 65536 footprints, all of
  them inside the image, and at least one footprint pixel. Then at every pixel \<open>p\<close> of the
  image the distance image holds the minimum Manhattan distance from \<open>p\<close> to a footprint
  pixel, and the label image holds the index of a footprint that attains it; at a pixel
  covered by footprints it holds the highest index of a footprint covering the pixel.
\<close>

theorem nearestFootprint_min_distance:
  assumes "img_x0 argmin = img_x0 dst" "img_y0 argmin = img_y0 dst"
    and "img_w dst + img_h dst < 65535"
    and "length foots \<le> 65536"
    and "\<forall>f\<in>set foots. \<forall>x y. foot_contains f x y \<longrightarrow>
        in_image (img_w dst) (img_h dst) (x - img_x0 dst, y - img_y0 dst)"
    and "\<exists>f\<in>set foots. \<exists>x y. foot_contains f x y"
    and "in_image (img_w dst) (img_h dst) p"
  shows "(\<forall>k<length foots. \<forall>x y. foot_contains (foots ! k) x y \<longrightarrow>
            img_pix (snd (nearestFootprint foots argmin dst)) p
              \<le> \<bar>fst p + img_x0 dst - x\<bar> + \<bar>snd p + img_y0 dst - y\<bar>) \<and>
         (\<exists>k<length foots. \<exists>x y. foot_contains (foots ! k) x y \<and>
            img_pix (snd (nearestFootprint foots argmin dst)) p
              = \<bar>fst p + img_x0 dst - x\<bar> + \<bar>snd p + img_y0 dst - y\<bar> \<and>
            img_pix (fst (nearestFootprint foots argmin dst)) p = int k) \<and>
         (\<forall>k<length foots.
            foot_contains (foots ! k) (fst p + img_x0 dst) (snd p + img_y0 dst) \<and>
            (\<forall>j<length foots. k < j \<longrightarrow>
               \<not> foot_contains (foots ! j) (fst p + img_x0 dst) (snd p + img_y0 dst)) \<longrightarrow>
            img_pix (fst (nearestFootprint foots argmin dst)) p = int k)"
proof -
  have 1: "img_pix (snd (nearestFootprint foots argmin dst)) p
              \<le> \<bar>fst p + img_x0 dst - x\<bar> + \<bar>snd p + img_y0 dst - y\<bar>"
    if "k < length foots" "foot_contains (foots ! k) x y" for k x y
    using nearest_lower_bound[OF assms(1,2,3,5,7), where f = "foots ! k" and x = x and y = y]
      that by simp
  have u: "u16 (int k) = int k" if "k < length foots" for k
    using that assms(4) by (simp add: u16_def)
  from nearest_attained[OF assms(1,2,3,5,7,6)] u
  have 2: "\<exists>k<length foots. \<exists>x y. foot_contains (foots ! k) x y \<and>
            img_pix (snd (nearestFootprint foots argmin dst)) p
              = \<bar>fst p + img_x0 dst - x\<bar> + \<bar>snd p + img_y0 dst - y\<bar> \<and>
            img_pix (fst (nearestFootprint foots argmin dst)) p = int k"
    by metis
  have 3: "img_pix (fst (nearestFootprint foots argmin dst)) p = int k"
    if "k < length foots"
      "foot_contains (foots ! k) (fst p + img_x0 dst) (snd p + img_y0 dst)"
      "\<forall>j<length foots. k < j \<longrightarrow>
         \<not> foot_contains (foots ! j) (fst p + img_x0 dst) (snd p + img_y0 dst)" for k
    using nearest_covered[OF assms(1,2,7) that] u[OF that(1)] by simp
  from 1 2 3 show ?thesis by blast
qed

text \<open>
  C4 (fails on the code). The claim: ties go to the lower footprint index. With footprint
  0 at \<open>(4,0)\<close> and footprint 1 at \<open>(0,0)\<close> in a 5 by 1 image, the pixel \<open>(2,0)\<close> is at
  distance 2 from both; the forward sweep reaches it from the west first and the backward
  sweep only replaces on a strictly smaller distance, so the label stays 1.
\<close>

theorem nearestFootprint_tie_takes_higher_index:
  "img_pix (fst (nearestFootprint [[Span 0 4 4], [Span 0 0 0]]
                   (const_image 0 0 5 1 0) (const_image 0 0 5 1 0))) (2, 0) = 1 \<and>
   img_pix (snd (nearestFootprint [[Span 0 4 4], [Span 0 0 0]]
                   (const_image 0 0 5 1 0) (const_image 0 0 5 1 0))) (2, 0) = 2 \<and>
   foot_contains ([[Span 0 4 4], [Span 0 0 0]] ! 0) 4 0 \<and> \<bar>2 - 4\<bar> + \<bar>0 - 0\<bar> = (2::int)"
  by (simp add: nearestFootprint_def const_image_def Span_def setImage_def set_pix_def u16_def
      nil_def fwd_pixel_def bwd_pixel_def relax_def upto.simps Let_def foot_contains_def
      span_contains_def)

theorem nearestFootprint_min_distance_witness:
  "img_pix (snd (nearestFootprint [[Span 0 0 0], [Span 0 4 4]]
                   (const_image 0 0 5 1 0) (const_image 0 0 5 1 0))) (1, 0) = 1 \<and>
   img_pix (fst (nearestFootprint [[Span 0 0 0], [Span 0 4 4]]
                   (const_image 0 0 5 1 0) (const_image 0 0 5 1 0))) (1, 0) = 0 \<and>
   img_pix (fst (nearestFootprint [[Span 0 0 1], [Span 0 1 1]]
                   (const_image 0 0 5 1 0) (const_image 0 0 5 1 0))) (1, 0) = 1"
proof -
  let ?F = "[[Span 0 0 0], [Span 0 4 4]]"
  let ?G = "[[Span 0 0 1], [Span 0 1 1]]"
  let ?I = "const_image 0 0 5 1 (0::int)"
  have h: "img_x0 ?I = img_x0 ?I" "img_y0 ?I = img_y0 ?I" "img_w ?I + img_h ?I < 65535"
    "length ?F \<le> 65536" "\<exists>f\<in>set ?F. \<exists>x y. foot_contains f x y"
    "in_image (img_w ?I) (img_h ?I) (1, 0)"
    by (auto simp: const_image_def foot_contains_def span_contains_def Span_def in_image_def)
  have ins: "\<forall>f\<in>set ?F. \<forall>x y. foot_contains f x y \<longrightarrow>
        in_image (img_w ?I) (img_h ?I) (x - img_x0 ?I, y - img_y0 ?I)"
    by (auto simp: const_image_def foot_contains_def span_contains_def Span_def in_image_def)
  have hG: "length ?G \<le> 65536" "\<exists>f\<in>set ?G. \<exists>x y. foot_contains f x y"
    by (auto simp: foot_contains_def span_contains_def Span_def)
  have insG: "\<forall>f\<in>set ?G. \<forall>x y. foot_contains f x y \<longrightarrow>
        in_image (img_w ?I) (img_h ?I) (x - img_x0 ?I, y - img_y0 ?I)"
    by (auto simp: const_image_def foot_contains_def span_contains_def Span_def in_image_def)
  note t = nearestFootprint_min_distance[OF h(1,2,3,4) ins h(5,6)]
  note g = nearestFootprint_min_distance[OF h(1,2,3) hG(1) insG hG(2) h(6)]
  have "img_pix (snd (nearestFootprint ?F ?I ?I)) (1, 0) \<le> 1"
    using t[THEN conjunct1, rule_format, of 0 0 0]
    by (simp add: foot_contains_def span_contains_def Span_def const_image_def)
  moreover from t[THEN conjunct2, THEN conjunct1] obtain k x y where "k < 2"
    "foot_contains (?F ! k) x y"
    "img_pix (snd (nearestFootprint ?F ?I ?I)) (1, 0) = \<bar>1 - x\<bar> + \<bar>0 - y\<bar>"
    "img_pix (fst (nearestFootprint ?F ?I ?I)) (1, 0) = int k"
    by (auto simp: const_image_def)
  ultimately have 1: "img_pix (snd (nearestFootprint ?F ?I ?I)) (1, 0) = 1 \<and>
      img_pix (fst (nearestFootprint ?F ?I ?I)) (1, 0) = 0"
    by (cases k) (auto simp: foot_contains_def span_contains_def Span_def less_Suc_eq
        numeral_2_eq_2)
  have c: "foot_contains (?G ! 1) (fst (1::int, 0::int) + img_x0 ?I) (snd (1::int, 0::int) + img_y0 ?I) \<and>
      (\<forall>j<length ?G. 1 < j \<longrightarrow>
         \<not> foot_contains (?G ! j) (fst (1::int, 0::int) + img_x0 ?I) (snd (1::int, 0::int) + img_y0 ?I))"
    by (auto simp: const_image_def foot_contains_def span_contains_def Span_def)
  have 2: "img_pix (fst (nearestFootprint ?G ?I ?I)) (1, 0) = 1"
    using g[THEN conjunct2, THEN conjunct2, rule_format, of 1] c by simp
  from 1 2 show ?thesis by blast
qed


lemma length_nearest_footlist: "length (nearest_footlist always ispsf tfoots) = length tfoots"
  by (simp add: nearest_footlist_def)

text \<open>
  C10. In the nearest-footprint mode the label read at a stray pixel is used as the index
  into \<open>contrib\<close> without a check. For a pixel of the sum image (width plus height below
  65535, at most 65535 templates, the footprints handed to the transform inside the image)
  the access is in bounds exactly when that footprint list, in which point sources are
  replaced by empty footprints unless stray flux always goes to point sources, holds a
  footprint with a pixel; otherwise the label is the sentinel \<open>0xFFFF\<close> and the access is
  behind the end of the array.
\<close>

theorem nearest_label_index_in_bounds:
  assumes "\<not> has_flag opts STRAYFLUX_R_TO_FOOTPRINT" "has_flag opts STRAYFLUX_NEAREST_FOOTPRINT"
    and "bx_w sumbb + bx_h sumbb < 65535"
    and "length tfoots \<le> 65535"
    and "\<forall>f\<in>set (nearest_footlist always ispsf tfoots). \<forall>u v. foot_contains f u v \<longrightarrow>
           in_image (bx_w sumbb) (bx_h sumbb) (u - bx_minX sumbb, v - bx_minY sumbb)"
    and "in_image (bx_w sumbb) (bx_h sumbb) (x - bx_minX sumbb, y - bx_minY sumbb)"
  shows "(\<exists>contrib. init_contrib opts (length tfoots)
             (fst (nearestFootprint (nearest_footlist always ispsf tfoots)
                     (new_image sumbb 0) (new_image sumbb 0))) pkx pky x y = Inr contrib)
         \<longleftrightarrow> (\<exists>f\<in>set (nearest_footlist always ispsf tfoots). \<exists>u v. foot_contains f u v)"
proof -
  let ?L = "nearest_footlist always ispsf tfoots"
  let ?I = "new_image sumbb (0::int)"
  let ?near = "fst (nearestFootprint ?L ?I ?I)"
  let ?p = "(x - bx_minX sumbb, y - bx_minY sumbb)"
  have I: "img_x0 ?I = bx_minX sumbb" "img_y0 ?I = bx_minY sumbb"
    "img_w ?I = bx_w sumbb" "img_h ?I = bx_h sumbb"
    by (simp_all add: new_image_def const_image_def)
  have o: "img_x0 ?I = img_x0 ?I" "img_y0 ?I = img_y0 ?I" by simp_all
  have small: "img_w ?I + img_h ?I < 65535" using assms(3) by (simp add: I)
  have p: "in_image (img_w ?I) (img_h ?I) ?p" using assms(6) by (simp add: I)
  have ins: "\<forall>f\<in>set ?L. \<forall>u v. foot_contains f u v \<longrightarrow>
        in_image (img_w ?I) (img_h ?I) (u - img_x0 ?I, v - img_y0 ?I)"
    using assms(5) by (simp add: I)
  have lab: "get0 ?near x y = img_pix ?near ?p"
    by (simp add: get0_def nearestFootprint_frame I)
  have ic: "init_contrib opts (length tfoots) ?near pkx pky x y =
      (if 0 \<le> img_pix ?near ?p \<and> img_pix ?near ?p < int (length tfoots)
       then Inr ((replicate (length tfoots) 0)[nat (img_pix ?near ?p) := 1])
       else Inl ReadPastEnd)"
    using assms(1,2) by (simp add: init_contrib_def Let_def lab)
  show ?thesis
  proof (cases "\<exists>f\<in>set ?L. \<exists>u v. foot_contains f u v")
    case True
    from nearest_attained[OF o small ins p True]
    obtain k where k: "k < length ?L" "img_pix ?near ?p = u16 (int k)" by blast
    then have "k < length tfoots" by (simp add: length_nearest_footlist)
    moreover from this have "u16 (int k) = int k" using assms(4) by (simp add: u16_def)
    ultimately have "0 \<le> img_pix ?near ?p \<and> img_pix ?near ?p < int (length tfoots)"
      using k(2) by simp
    then show ?thesis using True by (simp add: ic)
  next
    case False
    from nearest_all_empty[OF o small p False]
    have "img_pix ?near ?p = 65535" by (simp add: nil_def)
    then have "\<not> img_pix ?near ?p < int (length tfoots)" using assms(4) by simp
    then show ?thesis using False by (simp add: ic)
  qed
qed

theorem nearest_label_index_in_bounds_witness:
  "(\<exists>contrib. init_contrib STRAYFLUX_NEAREST_FOOTPRINT (length [[Span 0 0 0]])
       (fst (nearestFootprint (nearest_footlist False [] [[Span 0 0 0]])
               (new_image (getBBox (const_image 0 0 2 1 (0::real))) 0)
               (new_image (getBBox (const_image 0 0 2 1 (0::real))) 0))) [] [] 1 0 = Inr contrib)
   \<and> init_contrib STRAYFLUX_NEAREST_FOOTPRINT (length [[Span 0 0 0]])
       (fst (nearestFootprint (nearest_footlist False [True] [[Span 0 0 0]])
               (new_image (getBBox (const_image 0 0 2 1 (0::real))) 0)
               (new_image (getBBox (const_image 0 0 2 1 (0::real))) 0))) [] [] 1 0
       = Inl ReadPastEnd"
proof -
  let ?bb = "getBBox (const_image 0 0 2 1 (0::real))"
  have fl: "\<not> has_flag STRAYFLUX_NEAREST_FOOTPRINT STRAYFLUX_R_TO_FOOTPRINT"
    "has_flag STRAYFLUX_NEAREST_FOOTPRINT STRAYFLUX_NEAREST_FOOTPRINT"
    by (simp_all add: has_flag_def STRAYFLUX_NEAREST_FOOTPRINT_def STRAYFLUX_R_TO_FOOTPRINT_def)
  have b: "bx_w ?bb + bx_h ?bb < 65535" "length [[Span 0 0 0]] \<le> 65535"
    "in_image (bx_w ?bb) (bx_h ?bb) (1 - bx_minX ?bb, 0 - bx_minY ?bb)"
    by (simp_all add: getBBox_def const_image_def in_image_def)
  have i1: "\<forall>f\<in>set (nearest_footlist False [] [[Span 0 0 0]]). \<forall>u v. foot_contains f u v \<longrightarrow>
           in_image (bx_w ?bb) (bx_h ?bb) (u - bx_minX ?bb, v - bx_minY ?bb)"
    by (auto simp: nearest_footlist_def foot_contains_def span_contains_def Span_def
        getBBox_def const_image_def in_image_def)
  have i2: "\<forall>f\<in>set (nearest_footlist False [True] [[Span 0 0 0]]). \<forall>u v. foot_contains f u v \<longrightarrow>
           in_image (bx_w ?bb) (bx_h ?bb) (u - bx_minX ?bb, v - bx_minY ?bb)"
    by (auto simp: nearest_footlist_def foot_contains_def)
  have ne: "\<exists>f\<in>set (nearest_footlist False [] [[Span 0 0 0]]). \<exists>u v. foot_contains f u v"
    by (auto simp: nearest_footlist_def foot_contains_def span_contains_def Span_def)
  have em: "\<not> (\<exists>f\<in>set (nearest_footlist False [True] [[Span 0 0 0]]). \<exists>u v. foot_contains f u v)"
    by (auto simp: nearest_footlist_def foot_contains_def)
  note t1 = nearest_label_index_in_bounds[OF fl b(1,2) i1 b(3), of "[]" "[]"]
  note t2 = nearest_label_index_in_bounds[OF fl b(1,2) i2 b(3), of "[]" "[]"]
  have 1: "\<exists>contrib. init_contrib STRAYFLUX_NEAREST_FOOTPRINT (length [[Span 0 0 0]])
       (fst (nearestFootprint (nearest_footlist False [] [[Span 0 0 0]])
               (new_image ?bb 0) (new_image ?bb 0))) [] [] 1 0 = Inr contrib"
    using t1 ne by blast
  have "\<not> (\<exists>contrib. init_contrib STRAYFLUX_NEAREST_FOOTPRINT (length [[Span 0 0 0]])
       (fst (nearestFootprint (nearest_footlist False [True] [[Span 0 0 0]])
               (new_image ?bb 0) (new_image ?bb 0))) [] [] 1 0 = Inr contrib)"
    using t2 em by blast
  then have 2: "init_contrib STRAYFLUX_NEAREST_FOOTPRINT (length [[Span 0 0 0]])
       (fst (nearestFootprint (nearest_footlist False [True] [[Span 0 0 0]])
               (new_image ?bb 0) (new_image ?bb 0))) [] [] 1 0 = Inl ReadPastEnd"
    using fl by (auto simp: init_contrib_def Let_def split: if_splits)
  from 1 2 show ?thesis by blast
qed




end
